theory Spec2Isabelle
  imports Complex_Main "HOL-Library.Word"
begin

section \<open>Data model (src/types.ts)\<close>

text \<open>
  The segmentation core of \<^verbatim>\<open>src/services/processor.ts\<close>, from the decoded pixel buffer
  onward: \<^verbatim>\<open>getQuantizedPalette\<close>, the labelling loop, the region scan with its flood
  fill, \<^verbatim>\<open>traceRegionBoundary\<close>, \<^verbatim>\<open>calculateLabelPoint\<close> and the assembly of the result.

  Numbers. Every JavaScript number the core computes on is an integer, apart from four
  places:
  \<^item> \<^verbatim>\<open>colorDistance\<close> is a square root of an integer not above \<open>3 * 255\<^sup>2\<close>; two such
    integers that differ have square roots more than \<open>10\<^sup>-\<^sup>3\<close> apart, so the comparison of
    the doubles is the comparison of the real square roots;
  \<^item> \<^verbatim>\<open>Math.round(sum / count)\<close> is \<open>\<lfloor>x + 1/2\<rfloor>\<close> at a quotient of integers whose distance
    to a half-integer is zero or at least \<open>1 / (2 * count)\<close>, so rounding the double is
    rounding the real quotient;
  \<^item> \<^verbatim>\<open>Math.floor(Math.random() * (data.length / 4))\<close> is the floor of a product of
    doubles, which the model does not compute: the integers it yields in one run are given
    to the model as a sequence \<open>rnd\<close>, the \<open>i\<close>-th being \<open>rnd i\<close>. The generator returns a
    double below 1, and the product of such a double with the pixel count rounds to a
    double below the pixel count, so \<open>rnd i\<close> is a pixel number of the buffer; a theorem
    that needs this assumes it;
  \<^item> the two fields of a label point are kept as the exact quotients plus one half; the
    code stores the doubles nearest to them.
\<close>

datatype error = TypeError

record RGB =
  r :: int
  g :: int
  b :: int

record PaletteColor = RGB +
  id' :: nat
  hex :: string
  count :: nat

record Region =
  path :: string
  colorId :: nat
  labelPoint :: "rat \<times> rat"
  area :: nat

record ProcessedArt =
  width :: nat
  height :: nat
  palette :: "PaletteColor list"
  regions :: "Region list"
  originalUrl :: string

section \<open>Colour helpers\<close>

definition hexDigit :: "nat \<Rightarrow> char" where
  "hexDigit d = ''0123456789abcdef'' ! d"

text \<open>\<^verbatim>\<open>n.toString(16)\<close> for a non-negative integer.\<close>

fun toString16 :: "nat \<Rightarrow> string" where
  "toString16 n = (if n < 16 then [hexDigit n] else toString16 (n div 16) @ [hexDigit (n mod 16)])"

declare toString16.simps [simp del]

text \<open>\<^verbatim>\<open>"#" + ((1 << 24) + (r << 16) + (g << 8) + b).toString(16).slice(1)\<close>\<close>

definition rgbToHex :: "int \<Rightarrow> int \<Rightarrow> int \<Rightarrow> string" where
  "rgbToHex cr cg cb = CHR ''#'' # drop 1 (toString16 (nat (2 ^ 24 + cr * 2 ^ 16 + cg * 2 ^ 8 + cb)))"

definition colorDistance :: "'a RGB_scheme \<Rightarrow> 'b RGB_scheme \<Rightarrow> real" where
  "colorDistance c1 c2 =
     sqrt (of_int ((r c1 - r c2) ^ 2) + of_int ((g c1 - g c2) ^ 2) + of_int ((b c1 - b c2) ^ 2))"

section \<open>K-means palette (getQuantizedPalette)\<close>

text \<open>The pixel buffer is the \<^verbatim>\<open>Uint8ClampedArray\<close> of RGBA bytes, four per pixel.\<close>

type_synonym buffer = "8 word list"

definition pixelAt :: "buffer \<Rightarrow> nat \<Rightarrow> RGB" where
  "pixelAt data i = \<lparr>r = uint (data ! i), g = uint (data ! (i + 1)), b = uint (data ! (i + 2))\<rparr>"

text \<open>
  Step 1: \<^verbatim>\<open>idx = Math.floor(Math.random() * (data.length / 4)) * 4\<close>, once per centroid,
  where \<open>rnd i\<close> is the value of \<^verbatim>\<open>Math.floor(Math.random() * (data.length / 4))\<close> in
  iteration \<open>i\<close>.
\<close>

definition randomIdx :: "(nat \<Rightarrow> nat) \<Rightarrow> nat \<Rightarrow> nat" where
  "randomIdx rnd i = rnd i * 4"

definition initCentroids :: "buffer \<Rightarrow> nat \<Rightarrow> (nat \<Rightarrow> nat) \<Rightarrow> RGB list" where
  "initCentroids data k rnd = map (\<lambda>i. pixelAt data (randomIdx rnd i)) [0..<k]"

text \<open>
  The nearest-centroid loop, written twice in the source (over \<^verbatim>\<open>centroids\<close> with
  \<^verbatim>\<open>j < k\<close>, where \<^verbatim>\<open>centroids.length\<close> is \<open>k\<close>, and over \<^verbatim>\<open>palette\<close> with
  \<^verbatim>\<open>j < palette.length\<close>). \<^verbatim>\<open>minDist\<close> starts at \<^verbatim>\<open>Infinity\<close>, which is \<open>None\<close> here.
\<close>

definition nearestStep :: "RGB \<Rightarrow> 'a RGB_scheme list \<Rightarrow> nat \<Rightarrow> real option \<times> nat \<Rightarrow> real option \<times> nat" where
  "nearestStep p cs j st =
     (let dist = colorDistance p (cs ! j) in
      case st of (minDist, clusterIdx) \<Rightarrow>
        if (case minDist of None \<Rightarrow> True | Some m \<Rightarrow> dist < m) then (Some dist, j)
        else (minDist, clusterIdx))"

definition nearest :: "RGB \<Rightarrow> 'a RGB_scheme list \<Rightarrow> nat" where
  "nearest p cs = snd (fold (nearestStep p cs) [0..<length cs] (None, 0))"

record Sums = RGB +
  cnt :: nat

definition addPixel :: "Sums \<Rightarrow> RGB \<Rightarrow> Sums" where
  "addPixel s p = \<lparr>r = r s + r p, g = g s + g p, b = b s + b p, cnt = cnt s + 1\<rparr>"

text \<open>\<^verbatim>\<open>for (let i = 0; i < data.length; i += 4)\<close>\<close>

definition pixelOffsets :: "buffer \<Rightarrow> nat list" where
  "pixelOffsets data = map (\<lambda>q. 4 * q) [0..<(length data + 3) div 4]"

text \<open>
  The assignment loop of one pass. \<^verbatim>\<open>sums[clusterIdx].r += p.r\<close> throws a TypeError when
  \<^verbatim>\<open>sums[clusterIdx]\<close> is undefined, which is the case \<open>k = 0\<close>.
\<close>

fun assignPixels :: "buffer \<Rightarrow> RGB list \<Rightarrow> nat list \<Rightarrow> Sums list \<Rightarrow> error + Sums list" where
  "assignPixels data cs [] acc = Inr acc"
| "assignPixels data cs (i # offs) acc =
     (if data ! (i + 3) < 128 then assignPixels data cs offs acc
      else
        let p = pixelAt data i;
            clusterIdx = nearest p cs
        in if clusterIdx < length acc
           then assignPixels data cs offs (acc[clusterIdx := addPixel (acc ! clusterIdx) p])
           else Inl TypeError)"

text \<open>\<^verbatim>\<open>Math.round(x)\<close> is \<open>\<lfloor>x + 1/2\<rfloor>\<close>, which is \<^const>\<open>round\<close>.\<close>

definition updateCentroid :: "RGB \<Rightarrow> Sums \<Rightarrow> RGB" where
  "updateCentroid c s =
     (if cnt s > 0
      then \<lparr>r = round (real_of_int (r s) / real (cnt s)),
            g = round (real_of_int (g s) / real (cnt s)),
            b = round (real_of_int (b s) / real (cnt s))\<rparr>
      else c)"

definition kmeansPass :: "buffer \<Rightarrow> RGB list \<Rightarrow> error + RGB list" where
  "kmeansPass data cs =
     (let acc = map (\<lambda>_. \<lparr>r = 0, g = 0, b = 0, cnt = 0\<rparr>) cs in
      case assignPixels data cs (pixelOffsets data) acc of
        Inl e \<Rightarrow> Inl e
      | Inr acc' \<Rightarrow> Inr (map (\<lambda>j. updateCentroid (cs ! j) (acc' ! j)) [0..<length cs]))"

definition iterations :: nat where
  "iterations = 5"

fun kmeansLoop :: "nat \<Rightarrow> buffer \<Rightarrow> RGB list \<Rightarrow> error + RGB list" where
  "kmeansLoop 0 data cs = Inr cs"
| "kmeansLoop (Suc n) data cs =
     (case kmeansPass data cs of Inl e \<Rightarrow> Inl e | Inr cs' \<Rightarrow> kmeansLoop n data cs')"

definition toPaletteColor :: "RGB list \<Rightarrow> nat \<Rightarrow> PaletteColor" where
  "toPaletteColor cs idx =
     \<lparr>r = r (cs ! idx), g = g (cs ! idx), b = b (cs ! idx),
      id' = idx + 1, hex = rgbToHex (r (cs ! idx)) (g (cs ! idx)) (b (cs ! idx)), count = 0\<rparr>"

definition getQuantizedPalette :: "buffer \<Rightarrow> nat \<Rightarrow> (nat \<Rightarrow> nat) \<Rightarrow> error + PaletteColor list" where
  "getQuantizedPalette data k rnd =
     (case kmeansLoop iterations data (initCentroids data k rnd) of
        Inl e \<Rightarrow> Inl e
      | Inr cs \<Rightarrow> Inr (map (toPaletteColor cs) [0..<length cs]))"

section \<open>Pixel labelling (step 3 of processImage)\<close>

text \<open>
  \<^verbatim>\<open>pixelLabels = new Int32Array(width * height)\<close> starts as zeros; a write outside a
  typed array is ignored, as is a list update outside the list.
\<close>

definition labelStep :: "buffer \<Rightarrow> PaletteColor list \<Rightarrow> nat \<Rightarrow> int list \<Rightarrow> int list" where
  "labelStep data pal i pixelLabels =
     (if data ! (i + 3) < 128 then pixelLabels[i div 4 := - 1]
      else pixelLabels[i div 4 := int (nearest (pixelAt data i) pal)])"

definition labelPixels :: "buffer \<Rightarrow> nat \<Rightarrow> nat \<Rightarrow> PaletteColor list \<Rightarrow> int list" where
  "labelPixels data w h pal = fold (labelStep data pal) (pixelOffsets data) (replicate (w * h) 0)"

section \<open>Boundary and label point of one region\<close>

definition decDigit :: "nat \<Rightarrow> char" where
  "decDigit d = ''0123456789'' ! d"

text \<open>The template-literal conversion \<^verbatim>\<open>${x}\<close> of a non-negative integer.\<close>

fun numToString :: "nat \<Rightarrow> string" where
  "numToString n = (if n < 10 then [decDigit n] else numToString (n div 10) @ [decDigit (n mod 10)])"

declare numToString.simps [simp del]

text \<open>A unit edge from \<open>(x1, y1)\<close> to \<open>(x2, y2)\<close>, appended as \<^verbatim>\<open>M${x1},${y1}L${x2},${y2} \<close>.\<close>

type_synonym edge = "nat \<times> nat \<times> nat \<times> nat"

definition edgeToPath :: "edge \<Rightarrow> string" where
  "edgeToPath e = (case e of (x1, y1, x2, y2) \<Rightarrow>
     ''M'' @ numToString x1 @ '','' @ numToString y1 @ ''L'' @ numToString x2 @ '','' @ numToString y2 @ '' '')"

definition boxStep :: "nat \<Rightarrow> nat \<Rightarrow> nat \<times> nat \<times> nat \<times> nat \<Rightarrow> nat \<times> nat \<times> nat \<times> nat" where
  "boxStep w p box = (case box of (minBx, maxBx, minBy, maxBy) \<Rightarrow>
     let x = p mod w; y = p div w in
       (if x < minBx then x else minBx, if x > maxBx then x else maxBx,
        if y < minBy then y else minBy, if y > maxBy then y else maxBy))"

definition boundingBox :: "nat list \<Rightarrow> nat \<Rightarrow> nat \<Rightarrow> nat \<times> nat \<times> nat \<times> nat" where
  "boundingBox pixels w h = fold (boxStep w) pixels (w, 0, h, 0)"

text \<open>The four side tests of the final scanline loop, in the source's order: top, bottom, left, right.\<close>

definition pixelEdges :: "nat set \<Rightarrow> nat \<Rightarrow> nat \<Rightarrow> nat \<Rightarrow> nat \<Rightarrow> edge list" where
  "pixelEdges pixelSet w h x y =
     (if y = 0 \<or> (y - 1) * w + x \<notin> pixelSet then [(x, y, x + 1, y)] else []) @
     (if int y = int h - 1 \<or> (y + 1) * w + x \<notin> pixelSet then [(x, y + 1, x + 1, y + 1)] else []) @
     (if x = 0 \<or> y * w + x - 1 \<notin> pixelSet then [(x, y, x, y + 1)] else []) @
     (if int x = int w - 1 \<or> y * w + x + 1 \<notin> pixelSet then [(x + 1, y, x + 1, y + 1)] else [])"

definition boundaryEdges :: "nat list \<Rightarrow> nat \<Rightarrow> nat \<Rightarrow> edge list" where
  "boundaryEdges pixels w h =
     (let pixelSet = set pixels in
      case boundingBox pixels w h of (minBx, maxBx, minBy, maxBy) \<Rightarrow>
        concat (map (\<lambda>y. concat (map (\<lambda>x.
            if y * w + x \<in> pixelSet then pixelEdges pixelSet w h x y else [])
          [minBx..<maxBx + 1])) [minBy..<maxBy + 1]))"

text \<open>
  Of \<^verbatim>\<open>traceRegionBoundary\<close> only the bounding box and the final scanline loop reach the
  returned string; the run-length loop before it writes a local variable only, and
  \<^verbatim>\<open>startX\<close>, \<^verbatim>\<open>startY\<close> are not read.
\<close>

definition traceRegionBoundary :: "nat list \<Rightarrow> nat \<Rightarrow> nat \<Rightarrow> nat \<Rightarrow> nat \<Rightarrow> string" where
  "traceRegionBoundary pixels w h startX startY = concat (map edgeToPath (boundaryEdges pixels w h))"

definition calculateLabelPoint :: "nat list \<Rightarrow> nat \<Rightarrow> rat \<times> rat" where
  "calculateLabelPoint pixels w =
     (let sx = sum_list (map (\<lambda>p. p mod w) pixels);
          sy = sum_list (map (\<lambda>p. p div w) pixels)
      in (of_nat sx / of_nat (length pixels) + 1 / 2, of_nat sy / of_nat (length pixels) + 1 / 2))"

section \<open>Region extraction (step 4 of processImage)\<close>

text \<open>
  \<^verbatim>\<open>visited\<close> is the \<^verbatim>\<open>Uint8Array\<close> of \<open>width * height\<close> flags, read and written at
  pixel indices below \<open>width * height\<close> only; it is a function from the index. The state of
  the flood fill is \<^verbatim>\<open>visited\<close>, \<^verbatim>\<open>queue\<close> and \<^verbatim>\<open>currentRegionPixels\<close>.
\<close>

type_synonym fillState = "(nat \<Rightarrow> bool) \<times> nat list \<times> nat list"

text \<open>\<^verbatim>\<open>dx = [1, -1, 0, 0]\<close>, \<^verbatim>\<open>dy = [0, 0, 1, -1]\<close>\<close>

definition directions :: "(int \<times> int) list" where
  "directions = [(1, 0), (- 1, 0), (0, 1), (0, - 1)]"

definition visitNeighbor :: "int list \<Rightarrow> nat \<Rightarrow> nat \<Rightarrow> int \<Rightarrow> nat \<Rightarrow> nat \<Rightarrow> int \<times> int \<Rightarrow> fillState \<Rightarrow> fillState" where
  "visitNeighbor pixelLabels w h colorIdx cx cy d st =
     (let nx = int cx + fst d; ny = int cy + snd d in
      if nx \<ge> 0 \<and> nx < int w \<and> ny \<ge> 0 \<and> ny < int h then
        let nIdx = nat (ny * int w + nx) in
        case st of (visited, queue, currentRegionPixels) \<Rightarrow>
          if \<not> visited nIdx \<and> pixelLabels ! nIdx = colorIdx
          then (visited(nIdx := True), queue @ [nIdx], currentRegionPixels @ [nIdx])
          else st
      else st)"

definition unvisited :: "nat \<Rightarrow> nat \<Rightarrow> (nat \<Rightarrow> bool) \<Rightarrow> nat set" where
  "unvisited w h visited = {i. i < w * h \<and> \<not> visited i}"

lemma unvisited_finite: "finite (unvisited w h visited)"
  by (simp add: unvisited_def)

lemma unvisited_mark:
  assumes "i < w * h" "\<not> visited i"
  shows "card (unvisited w h (visited(i := True))) < card (unvisited w h visited)"
proof -
  have "unvisited w h (visited(i := True)) = unvisited w h visited - {i}"
    by (auto simp: unvisited_def)
  moreover have "i \<in> unvisited w h visited"
    using assms by (simp add: unvisited_def)
  ultimately show ?thesis
    using card_Diff1_less [of "unvisited w h visited" i] by (simp add: unvisited_finite)
qed

lemma neighbor_in_range:
  assumes "0 \<le> nx" "nx < int w" "0 \<le> ny" "ny < int h"
  shows "nat (ny * int w + nx) < w * h"
proof -
  have "ny * int w + nx < (ny + 1) * int w"
    using assms by (simp add: algebra_simps)
  also have "\<dots> \<le> int h * int w"
    using assms by (intro mult_right_mono) auto
  finally have "ny * int w + nx < int (w * h)"
    by (simp add: mult.commute)
  then show ?thesis
    using assms by (simp add: nat_less_iff)
qed

text \<open>What the flood fill still has to do: twice the unvisited pixels plus the queue length.\<close>

definition fillWork :: "nat \<Rightarrow> nat \<Rightarrow> fillState \<Rightarrow> nat" where
  "fillWork w h st = (case st of (visited, queue, currentRegionPixels) \<Rightarrow>
     2 * card (unvisited w h visited) + length queue)"

lemma visitNeighbor_work:
  "fillWork w h (visitNeighbor pixelLabels w h colorIdx cx cy d st) \<le> fillWork w h st"
proof (cases st)
  case (fields visited queue currentRegionPixels)
  show ?thesis
    using unvisited_mark [of "nat ((int cy + snd d) * int w + (int cx + fst d))" w h visited]
      neighbor_in_range [of "int cx + fst d" w "int cy + snd d" h]
    by (auto simp: fields visitNeighbor_def fillWork_def Let_def)
qed

lemma visitNeighbor_queue:
  "length (fst (snd st)) \<le> length (fst (snd (visitNeighbor pixelLabels w h colorIdx cx cy d st)))"
  by (cases st) (auto simp: visitNeighbor_def Let_def)

lemma visitNeighbors_work:
  "fillWork w h (fold (visitNeighbor pixelLabels w h colorIdx cx cy) ds st) \<le> fillWork w h st"
proof (induction ds arbitrary: st)
  case Nil
  show ?case by simp
next
  case (Cons d ds)
  show ?case
    using Cons.IH [of "visitNeighbor pixelLabels w h colorIdx cx cy d st"]
      visitNeighbor_work [of w h pixelLabels colorIdx cx cy d st]
    by simp
qed

lemma visitNeighbors_queue:
  "length (fst (snd st)) \<le> length (fst (snd (fold (visitNeighbor pixelLabels w h colorIdx cx cy) ds st)))"
proof (induction ds arbitrary: st)
  case Nil
  show ?case by simp
next
  case (Cons d ds)
  show ?case
    using Cons.IH [of "visitNeighbor pixelLabels w h colorIdx cx cy d st"]
      visitNeighbor_queue [of st pixelLabels w h colorIdx cx cy d]
    by simp
qed

text \<open>
  The breadth-first loop \<^verbatim>\<open>while (head < queue.length)\<close>: take \<^verbatim>\<open>queue[head++]\<close> and
  try its four neighbours.
\<close>

function floodFill :: "int list \<Rightarrow> nat \<Rightarrow> nat \<Rightarrow> int \<Rightarrow> nat \<Rightarrow> fillState \<Rightarrow> fillState" where
  "floodFill pixelLabels w h colorIdx head st =
     (if head < length (fst (snd st)) then
        let currIdx = fst (snd st) ! head;
            cx = currIdx mod w;
            cy = currIdx div w
        in floodFill pixelLabels w h colorIdx (Suc head)
             (fold (visitNeighbor pixelLabels w h colorIdx cx cy) directions st)
      else st)"
  by pat_completeness auto
termination
proof (relation "measure (\<lambda>(pixelLabels, w, h, colorIdx, head, st). fillWork w h st - head)")
  show "wf (measure (\<lambda>(pixelLabels, w, h, colorIdx, head, st). fillWork w h st - head))"
    by simp
next
  fix pixelLabels :: "int list" and w h :: nat and colorIdx :: int and head :: nat
    and st :: fillState and currIdx cx cy :: nat
  assume head: "head < length (fst (snd st))"
  let ?st' = "fold (visitNeighbor pixelLabels w h colorIdx cx cy) directions st"
  have "length (fst (snd st)) \<le> fillWork w h ?st'"
    using visitNeighbors_queue [of st pixelLabels w h colorIdx cx cy directions]
    by (cases ?st') (simp add: fillWork_def)
  moreover have "fillWork w h ?st' \<le> fillWork w h st"
    by (rule visitNeighbors_work)
  ultimately show "((pixelLabels, w, h, colorIdx, Suc head, ?st'), (pixelLabels, w, h, colorIdx, head, st))
      \<in> measure (\<lambda>(pixelLabels, w, h, colorIdx, head, st). fillWork w h st - head)"
    using head by simp
qed

declare floodFill.simps [simp del]

text \<open>
  The state of the raster scan: \<^verbatim>\<open>visited\<close>, \<^verbatim>\<open>regions\<close> and \<^verbatim>\<open>palette\<close> (whose
  counts the scan increments). Each pushed region is kept together with the
  \<^verbatim>\<open>currentRegionPixels\<close> it was built from, which the source drops after the push.
\<close>

type_synonym scanState = "(nat \<Rightarrow> bool) \<times> (nat list \<times> Region) list \<times> PaletteColor list"

text \<open>
  The body of the two scan loops at pixel \<open>(x, y)\<close>. \<^verbatim>\<open>palette[colorIdx].id\<close> throws a
  TypeError when \<^verbatim>\<open>palette[colorIdx]\<close> is undefined.
\<close>

definition scanPixel :: "int list \<Rightarrow> nat \<Rightarrow> nat \<Rightarrow> nat \<Rightarrow> nat \<Rightarrow> nat \<Rightarrow> scanState \<Rightarrow> error + scanState" where
  "scanPixel pixelLabels w h minRegionArea x y st =
     (case st of (visited, regs, pal) \<Rightarrow>
      let idx = y * w + x in
      if visited idx \<or> pixelLabels ! idx = - 1 then Inr st
      else
        let colorIdx = pixelLabels ! idx in
        case floodFill pixelLabels w h colorIdx 0 (visited(idx := True), [idx], [idx]) of
          (visited', queue, currentRegionPixels) \<Rightarrow>
            if length currentRegionPixels < minRegionArea then Inr (visited', regs, pal)
            else
              let pth = traceRegionBoundary currentRegionPixels w h x y;
                  lp = calculateLabelPoint currentRegionPixels w
              in if 0 \<le> colorIdx \<and> nat colorIdx < length pal then
                   Inr (visited',
                        regs @ [(currentRegionPixels,
                                 \<lparr>path = pth, colorId = id' (pal ! nat colorIdx),
                                  labelPoint = lp, area = length currentRegionPixels\<rparr>)],
                        pal[nat colorIdx := (pal ! nat colorIdx)\<lparr>count := count (pal ! nat colorIdx) + 1\<rparr>])
                 else Inl TypeError)"

text \<open>\<^verbatim>\<open>for (y = 0; y < height; y++) for (x = 0; x < width; x++)\<close>\<close>

definition scanOrder :: "nat \<Rightarrow> nat \<Rightarrow> (nat \<times> nat) list" where
  "scanOrder w h = concat (map (\<lambda>y. map (\<lambda>x. (x, y)) [0..<w]) [0..<h])"

fun scanLoop :: "int list \<Rightarrow> nat \<Rightarrow> nat \<Rightarrow> nat \<Rightarrow> (nat \<times> nat) list \<Rightarrow> scanState \<Rightarrow> error + scanState" where
  "scanLoop pixelLabels w h minRegionArea [] st = Inr st"
| "scanLoop pixelLabels w h minRegionArea (xy # rest) st =
     (case scanPixel pixelLabels w h minRegionArea (fst xy) (snd xy) st of
        Inl e \<Rightarrow> Inl e
      | Inr st' \<Rightarrow> scanLoop pixelLabels w h minRegionArea rest st')"

definition extractRegions :: "int list \<Rightarrow> nat \<Rightarrow> nat \<Rightarrow> nat \<Rightarrow> PaletteColor list \<Rightarrow> error + scanState" where
  "extractRegions pixelLabels w h minRegionArea pal =
     scanLoop pixelLabels w h minRegionArea (scanOrder w h) (\<lambda>_. False, [], pal)"

section \<open>The pipeline (processImage, from the pixel buffer on)\<close>

text \<open>
  \<^verbatim>\<open>processImage\<close> after \<^verbatim>\<open>getImageData\<close>: \<open>data\<close> is the buffer of a \<open>w\<close> by \<open>h\<close>
  canvas. The source fixes \<^verbatim>\<open>minRegionArea = 10\<close>; \<open>processImageWith\<close> is the same
  code with that constant as a parameter.
\<close>

definition processImageWith ::
  "nat \<Rightarrow> buffer \<Rightarrow> nat \<Rightarrow> nat \<Rightarrow> string \<Rightarrow> nat \<Rightarrow> (nat \<Rightarrow> nat) \<Rightarrow> error + ProcessedArt" where
  "processImageWith minArea data w h imageUrl numColors rnd =
     (case getQuantizedPalette data numColors rnd of
        Inl e \<Rightarrow> Inl e
      | Inr pal \<Rightarrow>
          let pixelLabels = labelPixels data w h pal in
          case extractRegions pixelLabels w h minArea pal of
            Inl e \<Rightarrow> Inl e
          | Inr (visited, regs, pal') \<Rightarrow>
              Inr \<lparr>width = w, height = h, palette = filter (\<lambda>p. count p > 0) pal',
                   regions = map snd regs, originalUrl = imageUrl\<rparr>)"

definition minRegionArea :: nat where
  "minRegionArea = 10"

definition processImage :: "buffer \<Rightarrow> nat \<Rightarrow> nat \<Rightarrow> string \<Rightarrow> nat \<Rightarrow> (nat \<Rightarrow> nat) \<Rightarrow> error + ProcessedArt" where
  "processImage = processImageWith minRegionArea"

section \<open>Invariants of the flood fill\<close>

lemma floodFill_invariant:
  assumes "I head st"
    and "\<And>head st. I head st \<Longrightarrow> head < length (fst (snd st)) \<Longrightarrow>
      I (Suc head) (fold (visitNeighbor pixelLabels w h colorIdx ((fst (snd st) ! head) mod w) ((fst (snd st) ! head) div w)) directions st)"
  shows "\<exists>head'. I head' (floodFill pixelLabels w h colorIdx head st) \<and>
      length (fst (snd (floodFill pixelLabels w h colorIdx head st))) \<le> head'"
  using assms
proof (induction pixelLabels w h colorIdx head st rule: floodFill.induct)
  case (1 pixelLabels w h colorIdx head st)
  show ?case
  proof (cases "head < length (fst (snd st))")
    case True
    let ?st' = "fold (visitNeighbor pixelLabels w h colorIdx ((fst (snd st) ! head) mod w) ((fst (snd st) ! head) div w)) directions st"
    have "I (Suc head) ?st'"
      using "1.prems"(2) [OF "1.prems"(1) True] .
    from "1.IH" [OF True refl refl refl this "1.prems"(2)]
    show ?thesis
      using True by (subst (1 2) floodFill.simps) (simp add: Let_def)
  next
    case False
    then show ?thesis
      using "1.prems"(1) by (subst (1 2) floodFill.simps) auto
  qed
qed

definition fillInv :: "int list \<Rightarrow> nat \<Rightarrow> nat \<Rightarrow> (nat \<Rightarrow> bool) \<Rightarrow> nat \<Rightarrow> int \<Rightarrow> fillState \<Rightarrow> bool" where
  "fillInv pixelLabels w h visited0 idx colorIdx st =
     (case st of (visited, queue, currentRegionPixels) \<Rightarrow>
        currentRegionPixels = queue \<and> distinct queue \<and> queue \<noteq> [] \<and> hd queue = idx \<and>
        (\<forall>i. visited i = (visited0 i \<or> i \<in> set queue)) \<and>
        (\<forall>i \<in> set queue. \<not> visited0 i \<and> i < w * h \<and> pixelLabels ! i = colorIdx))"

lemma visitNeighbor_fillInv:
  assumes "fillInv pixelLabels w h visited0 idx colorIdx st"
  shows "fillInv pixelLabels w h visited0 idx colorIdx (visitNeighbor pixelLabels w h colorIdx cx cy d st)"
proof (cases st)
  case (fields visited queue currentRegionPixels)
  show ?thesis
    using assms neighbor_in_range [of "int cx + fst d" w "int cy + snd d" h]
    by (auto simp: fields visitNeighbor_def fillInv_def Let_def)
qed

lemma visitNeighbors_fillInv:
  "fillInv pixelLabels w h visited0 idx colorIdx st \<Longrightarrow>
   fillInv pixelLabels w h visited0 idx colorIdx (fold (visitNeighbor pixelLabels w h colorIdx cx cy) ds st)"
  by (induction ds arbitrary: st) (simp_all add: visitNeighbor_fillInv)

lemma floodFill_fillInv:
  assumes "\<not> visited0 idx" "idx < w * h" "pixelLabels ! idx = colorIdx"
  shows "fillInv pixelLabels w h visited0 idx colorIdx
           (floodFill pixelLabels w h colorIdx 0 (visited0(idx := True), [idx], [idx]))"
proof -
  have "fillInv pixelLabels w h visited0 idx colorIdx (visited0(idx := True), [idx], [idx])"
    using assms by (auto simp: fillInv_def)
  from floodFill_invariant [where I = "\<lambda>_. fillInv pixelLabels w h visited0 idx colorIdx", OF this]
  show ?thesis
    using visitNeighbors_fillInv by blast
qed

section \<open>The scan, step by step\<close>

lemma scanOrder_index: "map (\<lambda>xy. snd xy * w + fst xy) (scanOrder w h) = [0..<h * w]"
proof (induction h)
  case 0
  show ?case by (simp add: scanOrder_def)
next
  case (Suc h)
  have "map (\<lambda>x. h * w + x) [0..<w] = map (\<lambda>i. i + h * w) [0..<w]"
    by (simp add: add.commute)
  then have row: "map (\<lambda>x. h * w + x) [0..<w] = [h * w..<h * w + w]"
    by (simp add: map_add_upt add.commute)
  have "scanOrder w (Suc h) = scanOrder w h @ map (\<lambda>x. (x, h)) [0..<w]"
    by (simp add: scanOrder_def)
  moreover have "[0..<h * w + w] = [0..<h * w] @ [h * w..<h * w + w]"
    by (rule upt_add_eq_append) simp
  ultimately show ?case
    using Suc.IH row by (simp add: comp_def add.commute [of w "h * w"])
qed

text \<open>What one step of the scan does, by cases.\<close>

lemma scanPixel_skip:
  assumes "visited (y * w + x) \<or> pixelLabels ! (y * w + x) = - 1"
  shows "scanPixel pixelLabels w h minArea x y (visited, regs, pal) = Inr (visited, regs, pal)"
  using assms by (simp add: scanPixel_def)

lemma scanPixel_seed:
  assumes seed: "\<not> visited (y * w + x)" "pixelLabels ! (y * w + x) \<noteq> - 1" "y * w + x < w * h"
    and res: "scanPixel pixelLabels w h minArea x y (visited, regs, pal) = Inr st'"
  obtains visited' pixels where
    "floodFill pixelLabels w h (pixelLabels ! (y * w + x)) 0 (visited(y * w + x := True), [y * w + x], [y * w + x])
       = (visited', pixels, pixels)"
    "fillInv pixelLabels w h visited (y * w + x) (pixelLabels ! (y * w + x)) (visited', pixels, pixels)"
    "length pixels < minArea \<and> st' = (visited', regs, pal) \<or>
     minArea \<le> length pixels \<and> 0 \<le> pixelLabels ! (y * w + x) \<and> nat (pixelLabels ! (y * w + x)) < length pal \<and>
     st' = (visited',
            regs @ [(pixels, \<lparr>path = traceRegionBoundary pixels w h x y,
                               colorId = id' (pal ! nat (pixelLabels ! (y * w + x))),
                               labelPoint = calculateLabelPoint pixels w, area = length pixels\<rparr>)],
            pal[nat (pixelLabels ! (y * w + x)) :=
              (pal ! nat (pixelLabels ! (y * w + x)))\<lparr>count := count (pal ! nat (pixelLabels ! (y * w + x))) + 1\<rparr>])"
proof -
  let ?idx = "y * w + x"
  let ?c = "pixelLabels ! ?idx"
  obtain visited' queue pixels where
    ff: "floodFill pixelLabels w h ?c 0 (visited(?idx := True), [?idx], [?idx]) = (visited', queue, pixels)"
    by (cases "floodFill pixelLabels w h ?c 0 (visited(?idx := True), [?idx], [?idx])") auto
  have inv: "fillInv pixelLabels w h visited ?idx ?c (visited', queue, pixels)"
    using floodFill_fillInv [of visited "y * w + x" w h pixelLabels, OF seed(1) seed(3) refl] ff by simp
  then have q: "queue = pixels"
    by (simp add: fillInv_def)
  show ?thesis
  proof (rule that [of visited' pixels])
    show "floodFill pixelLabels w h ?c 0 (visited(?idx := True), [?idx], [?idx]) = (visited', pixels, pixels)"
      using ff q by simp
    show "fillInv pixelLabels w h visited ?idx ?c (visited', pixels, pixels)"
      using inv q by simp
    show "length pixels < minArea \<and> st' = (visited', regs, pal) \<or>
     minArea \<le> length pixels \<and> 0 \<le> ?c \<and> nat ?c < length pal \<and>
     st' = (visited',
            regs @ [(pixels, \<lparr>path = traceRegionBoundary pixels w h x y,
                               colorId = id' (pal ! nat ?c),
                               labelPoint = calculateLabelPoint pixels w, area = length pixels\<rparr>)],
            pal[nat ?c := (pal ! nat ?c)\<lparr>count := count (pal ! nat ?c) + 1\<rparr>])"
      using res seed(1,2) ff
      by (auto simp: scanPixel_def Let_def split: if_splits)
  qed
qed

lemma scanLoop_invariant:
  assumes "I n st"
    and "map (\<lambda>xy. snd xy * w + fst xy) xys = [n..<n + length xys]"
    and "scanLoop pixelLabels w h minArea xys st = Inr st'"
    and "\<And>x y st st'. I (y * w + x) st \<Longrightarrow> y * w + x < n + length xys \<Longrightarrow>
           scanPixel pixelLabels w h minArea x y st = Inr st' \<Longrightarrow> I (Suc (y * w + x)) st'"
  shows "I (n + length xys) st'"
  using assms
proof (induction xys arbitrary: n st)
  case Nil
  then show ?case by simp
next
  case (Cons xy xys)
  obtain st1 where st1: "scanPixel pixelLabels w h minArea (fst xy) (snd xy) st = Inr st1"
    and rest: "scanLoop pixelLabels w h minArea xys st1 = Inr st'"
    using Cons.prems(3) by (auto split: sum.splits)
  have idx: "snd xy * w + fst xy = n" and tl: "map (\<lambda>xy. snd xy * w + fst xy) xys = [Suc n..<Suc n + length xys]"
    using Cons.prems(2) upt_conv_Cons [of n "n + length (xy # xys)"] by (simp_all del: upt_Suc)
  have "I (Suc n) st1"
    using Cons.prems(4) [of "snd xy" "fst xy" st st1] Cons.prems(1) st1 idx by simp
  from Cons.IH [OF this tl rest] Cons.prems(4)
  show ?case by simp
qed

section \<open>Connected components\<close>

text \<open>
  Four-neighbour adjacency of pixel indices, as the flood fill computes it from
  \<^verbatim>\<open>dx\<close>, \<^verbatim>\<open>dy\<close> and the bounds test.
\<close>

definition adjacent :: "nat \<Rightarrow> nat \<Rightarrow> nat \<Rightarrow> nat \<Rightarrow> bool" where
  "adjacent w h i n = (\<exists>d \<in> set directions.
     0 \<le> int (i mod w) + fst d \<and> int (i mod w) + fst d < int w \<and>
     0 \<le> int (i div w) + snd d \<and> int (i div w) + snd d < int h \<and>
     n = nat ((int (i div w) + snd d) * int w + (int (i mod w) + fst d)))"

text \<open>The connected component of a pixel: same label, reachable through adjacent pixels.\<close>

inductive_set component :: "int list \<Rightarrow> nat \<Rightarrow> nat \<Rightarrow> nat \<Rightarrow> nat set"
  for pixelLabels :: "int list" and w :: nat and h :: nat and idx :: nat where
  seed: "idx \<in> component pixelLabels w h idx"
| grow: "i \<in> component pixelLabels w h idx \<Longrightarrow> adjacent w h i n \<Longrightarrow>
         pixelLabels ! n = pixelLabels ! i \<Longrightarrow> n \<in> component pixelLabels w h idx"

lemma coords:
  assumes "0 \<le> nx" "nx < int w" "0 \<le> ny"
  shows "nat (ny * int w + nx) mod w = nat nx" "nat (ny * int w + nx) div w = nat ny"
proof -
  have "nat (ny * int w + nx) = nat ny * w + nat nx"
    using assms by (simp add: nat_add_distrib nat_mult_distrib)
  moreover have "nat nx < w"
    using assms by simp
  ultimately show "nat (ny * int w + nx) mod w = nat nx" "nat (ny * int w + nx) div w = nat ny"
    by simp_all
qed

lemma adjacent_sym:
  assumes "i < w * h" "adjacent w h i n"
  shows "adjacent w h n i"
proof -
  from assms(2) obtain d where d: "d \<in> set directions"
    and b: "0 \<le> int (i mod w) + fst d" "int (i mod w) + fst d < int w"
       "0 \<le> int (i div w) + snd d" "int (i div w) + snd d < int h"
    and n: "n = nat ((int (i div w) + snd d) * int w + (int (i mod w) + fst d))"
    by (auto simp: adjacent_def)
  have w: "0 < w"
    using assms(1) by (cases w) auto
  have m: "n mod w = nat (int (i mod w) + fst d)" and v: "n div w = nat (int (i div w) + snd d)"
    using coords [OF b(1) b(2) b(3)] n by simp_all
  have ih: "i div w < h"
    using assms(1) w by (simp add: less_mult_imp_div_less mult.commute)
  have im: "i mod w < w"
    using w by simp
  let ?d = "(- fst d, - snd d)"
  have "?d \<in> set directions"
    using d by (auto simp: directions_def)
  moreover have "int (n mod w) + fst ?d = int (i mod w)" "int (n div w) + snd ?d = int (i div w)"
    using m v b by simp_all
  moreover have "nat (int (i div w) * int w + int (i mod w)) = i"
    by (simp add: nat_add_distrib nat_mult_distrib)
  ultimately show ?thesis
    unfolding adjacent_def using ih im
    by (intro bexI [of _ ?d]) simp_all
qed

lemma adjacent_in_range: "adjacent w h i n \<Longrightarrow> n < w * h"
  using neighbor_in_range by (auto simp: adjacent_def)

lemma component_in_range: "n \<in> component pixelLabels w h idx \<Longrightarrow> idx < w * h \<Longrightarrow> n < w * h"
  by (induction rule: component.induct) (auto dest: adjacent_in_range)

lemma component_label: "n \<in> component pixelLabels w h idx \<Longrightarrow> pixelLabels ! n = pixelLabels ! idx"
  by (induction rule: component.induct) auto

lemma component_trans:
  "n \<in> component pixelLabels w h i \<Longrightarrow> i \<in> component pixelLabels w h idx \<Longrightarrow>
   n \<in> component pixelLabels w h idx"
  by (induction rule: component.induct) (auto intro: component.grow)

lemma component_sym:
  "n \<in> component pixelLabels w h idx \<Longrightarrow> idx < w * h \<Longrightarrow> idx \<in> component pixelLabels w h n"
proof (induction rule: component.induct)
  case seed
  show ?case by (rule component.seed)
next
  case (grow i n)
  have "i < w * h"
    using grow.hyps(1) grow.prems by (rule component_in_range)
  then have "adjacent w h n i"
    using grow.hyps(2) by (rule adjacent_sym)
  then have "i \<in> component pixelLabels w h n"
    using component.grow [OF component.seed, of w h n i pixelLabels] grow.hyps(3) by simp
  with grow.IH [OF grow.prems] show ?case
    by (rule component_trans)
qed

lemma component_eq:
  assumes "n \<in> component pixelLabels w h idx" "idx < w * h"
  shows "component pixelLabels w h n = component pixelLabels w h idx"
  using assms component_sym [OF assms] by (auto intro: component_trans)

lemma visitNeighbor_mono:
  "fst st i \<Longrightarrow> fst (visitNeighbor pixelLabels w h colorIdx cx cy d st) i"
  by (cases st) (auto simp: visitNeighbor_def Let_def)

lemma visitNeighbors_mono:
  "fst st i \<Longrightarrow> fst (fold (visitNeighbor pixelLabels w h colorIdx cx cy) ds st) i"
  by (induction ds arbitrary: st) (simp_all add: visitNeighbor_mono)

lemma visitNeighbor_prefix:
  "\<exists>ys. fst (snd (visitNeighbor pixelLabels w h colorIdx cx cy d st)) = fst (snd st) @ ys"
  by (cases st) (auto simp: visitNeighbor_def Let_def)

lemma visitNeighbors_prefix:
  "\<exists>ys. fst (snd (fold (visitNeighbor pixelLabels w h colorIdx cx cy) ds st)) = fst (snd st) @ ys"
proof (induction ds arbitrary: st)
  case Nil
  show ?case by simp
next
  case (Cons d ds)
  obtain ys where "fst (snd (visitNeighbor pixelLabels w h colorIdx cx cy d st)) = fst (snd st) @ ys"
    using visitNeighbor_prefix by blast
  moreover obtain zs where "fst (snd (fold (visitNeighbor pixelLabels w h colorIdx cx cy) ds
      (visitNeighbor pixelLabels w h colorIdx cx cy d st))) =
      fst (snd (visitNeighbor pixelLabels w h colorIdx cx cy d st)) @ zs"
    using Cons.IH by blast
  ultimately show ?case by simp
qed

lemma visitNeighbor_target:
  assumes "0 \<le> int cx + fst d" "int cx + fst d < int w" "0 \<le> int cy + snd d" "int cy + snd d < int h"
  shows "fst (visitNeighbor pixelLabels w h colorIdx cx cy d st) (nat ((int cy + snd d) * int w + (int cx + fst d)))
       \<or> pixelLabels ! nat ((int cy + snd d) * int w + (int cx + fst d)) \<noteq> colorIdx"
  using assms by (cases st) (auto simp: visitNeighbor_def Let_def)

lemma visitNeighbors_target:
  assumes "d \<in> set ds"
    "0 \<le> int cx + fst d" "int cx + fst d < int w" "0 \<le> int cy + snd d" "int cy + snd d < int h"
  shows "fst (fold (visitNeighbor pixelLabels w h colorIdx cx cy) ds st) (nat ((int cy + snd d) * int w + (int cx + fst d)))
       \<or> pixelLabels ! nat ((int cy + snd d) * int w + (int cx + fst d)) \<noteq> colorIdx"
  using assms(1)
proof (induction ds arbitrary: st)
  case Nil
  then show ?case by simp
next
  case (Cons a ds)
  show ?case
  proof (cases "d = a")
    case True
    show ?thesis
      using visitNeighbor_target [OF assms(2-5), of pixelLabels colorIdx st]
        visitNeighbors_mono [of "visitNeighbor pixelLabels w h colorIdx cx cy d st"
          "nat ((int cy + snd d) * int w + (int cx + fst d))" pixelLabels w h colorIdx cx cy ds]
      by (auto simp: True [symmetric])
  next
    case False
    then have "d \<in> set ds"
      using Cons.prems by simp
    from Cons.IH [OF this] show ?thesis by simp
  qed
qed

text \<open>Every pixel the fill has taken from the queue has its same-label neighbours visited.\<close>

definition fillClosed :: "int list \<Rightarrow> nat \<Rightarrow> nat \<Rightarrow> int \<Rightarrow> nat \<Rightarrow> fillState \<Rightarrow> bool" where
  "fillClosed pixelLabels w h colorIdx head st =
     (\<forall>k < head. k < length (fst (snd st)) \<longrightarrow>
        (\<forall>n. adjacent w h (fst (snd st) ! k) n \<and> pixelLabels ! n = colorIdx \<longrightarrow> fst st n))"

lemma fillClosed_step:
  assumes "fillClosed pixelLabels w h colorIdx head st" "head < length (fst (snd st))"
  shows "fillClosed pixelLabels w h colorIdx (Suc head)
           (fold (visitNeighbor pixelLabels w h colorIdx ((fst (snd st) ! head) mod w) ((fst (snd st) ! head) div w))
              directions st)"
proof -
  let ?i = "fst (snd st) ! head"
  let ?st' = "fold (visitNeighbor pixelLabels w h colorIdx (?i mod w) (?i div w)) directions st"
  obtain ys where ys: "fst (snd ?st') = fst (snd st) @ ys"
    using visitNeighbors_prefix by blast
  have "fst ?st' n" if k: "k < Suc head" and adj: "adjacent w h (fst (snd ?st') ! k) n"
    and lab: "pixelLabels ! n = colorIdx" for k n
  proof (cases "k < head")
    case True
    then have "fst (snd ?st') ! k = fst (snd st) ! k"
      using assms(2) ys by (simp add: nth_append)
    then have "fst st n"
      using assms True adj lab by (auto simp: fillClosed_def)
    then show ?thesis by (rule visitNeighbors_mono)
  next
    case False
    then have "k = head" using k by simp
    then have "fst (snd ?st') ! k = ?i"
      using assms(2) ys by (simp add: nth_append)
    then have "adjacent w h ?i n" using adj by simp
    then obtain d where "d \<in> set directions"
      "0 \<le> int (?i mod w) + fst d" "int (?i mod w) + fst d < int w"
      "0 \<le> int (?i div w) + snd d" "int (?i div w) + snd d < int h"
      and n: "n = nat ((int (?i div w) + snd d) * int w + (int (?i mod w) + fst d))"
      by (auto simp: adjacent_def)
    from visitNeighbors_target [OF this(1-5), of pixelLabels colorIdx st] n lab
    show ?thesis by simp
  qed
  then show ?thesis
    by (auto simp: fillClosed_def)
qed

lemma visitNeighbor_component:
  assumes "set (fst (snd st)) \<subseteq> component pixelLabels w h idx"
    "i \<in> component pixelLabels w h idx" "pixelLabels ! i = colorIdx" "d \<in> set directions"
  shows "set (fst (snd (visitNeighbor pixelLabels w h colorIdx (i mod w) (i div w) d st)))
           \<subseteq> component pixelLabels w h idx"
proof (cases st)
  case (fields visited queue currentRegionPixels)
  have "nat ((int (i div w) + snd d) * int w + (int (i mod w) + fst d)) \<in> component pixelLabels w h idx"
    if "0 \<le> int (i mod w) + fst d" "int (i mod w) + fst d < int w"
      "0 \<le> int (i div w) + snd d" "int (i div w) + snd d < int h"
      "pixelLabels ! nat ((int (i div w) + snd d) * int w + (int (i mod w) + fst d)) = colorIdx"
  proof (rule component.grow [OF assms(2)])
    show "adjacent w h i (nat ((int (i div w) + snd d) * int w + (int (i mod w) + fst d)))"
      using assms(4) that by (auto simp: adjacent_def)
    show "pixelLabels ! nat ((int (i div w) + snd d) * int w + (int (i mod w) + fst d)) = pixelLabels ! i"
      using that assms(3) by simp
  qed
  then show ?thesis
    using assms(1) by (auto simp: fields visitNeighbor_def Let_def)
qed

lemma visitNeighbors_component:
  assumes "set (fst (snd st)) \<subseteq> component pixelLabels w h idx"
    "i \<in> component pixelLabels w h idx" "pixelLabels ! i = colorIdx" "set ds \<subseteq> set directions"
  shows "set (fst (snd (fold (visitNeighbor pixelLabels w h colorIdx (i mod w) (i div w)) ds st)))
           \<subseteq> component pixelLabels w h idx"
  using assms(1,4)
proof (induction ds arbitrary: st)
  case Nil
  then show ?case by simp
next
  case (Cons d ds)
  have "set (fst (snd (visitNeighbor pixelLabels w h colorIdx (i mod w) (i div w) d st)))
           \<subseteq> component pixelLabels w h idx"
    using Cons.prems by (intro visitNeighbor_component assms(2,3)) auto
  from Cons.IH [OF this] Cons.prems(2) show ?case by simp
qed

text \<open>
  The flood fill started at an unvisited seed collects exactly the seed's connected
  component, when no earlier component was left half visited.
\<close>

definition fillFull :: "int list \<Rightarrow> nat \<Rightarrow> nat \<Rightarrow> (nat \<Rightarrow> bool) \<Rightarrow> nat \<Rightarrow> int \<Rightarrow> nat \<Rightarrow> fillState \<Rightarrow> bool" where
  "fillFull pixelLabels w h visited0 idx colorIdx head st =
     (fillInv pixelLabels w h visited0 idx colorIdx st \<and>
      fillClosed pixelLabels w h colorIdx head st \<and>
      set (fst (snd st)) \<subseteq> component pixelLabels w h idx)"

lemma floodFill_fillFull:
  assumes "\<not> visited0 idx" "idx < w * h" "pixelLabels ! idx = colorIdx"
  shows "\<exists>head'. fillFull pixelLabels w h visited0 idx colorIdx head'
           (floodFill pixelLabels w h colorIdx 0 (visited0(idx := True), [idx], [idx])) \<and>
         length (fst (snd (floodFill pixelLabels w h colorIdx 0 (visited0(idx := True), [idx], [idx])))) \<le> head'"
proof (rule floodFill_invariant)
  show "fillFull pixelLabels w h visited0 idx colorIdx 0 (visited0(idx := True), [idx], [idx])"
    using assms by (auto simp: fillFull_def fillInv_def fillClosed_def intro: component.seed)
next
  fix head st
  assume inv: "fillFull pixelLabels w h visited0 idx colorIdx head st" and head: "head < length (fst (snd st))"
  let ?i = "fst (snd st) ! head"
  have i: "?i \<in> component pixelLabels w h idx"
    using inv head by (auto simp: fillFull_def)
  have "?i \<in> set (fst (snd st))"
    using head by simp
  then have lab: "pixelLabels ! ?i = colorIdx"
    using inv by (cases st) (auto simp: fillFull_def fillInv_def)
  show "fillFull pixelLabels w h visited0 idx colorIdx (Suc head)
      (fold (visitNeighbor pixelLabels w h colorIdx (?i mod w) (?i div w)) directions st)"
    unfolding fillFull_def
  proof (intro conjI)
    show "fillInv pixelLabels w h visited0 idx colorIdx
        (fold (visitNeighbor pixelLabels w h colorIdx (?i mod w) (?i div w)) directions st)"
      using inv by (simp add: fillFull_def visitNeighbors_fillInv)
    show "fillClosed pixelLabels w h colorIdx (Suc head)
        (fold (visitNeighbor pixelLabels w h colorIdx (?i mod w) (?i div w)) directions st)"
      using inv head by (simp add: fillFull_def fillClosed_step)
    show "set (fst (snd (fold (visitNeighbor pixelLabels w h colorIdx (?i mod w) (?i div w)) directions st)))
        \<subseteq> component pixelLabels w h idx"
      using inv i lab by (intro visitNeighbors_component) (auto simp: fillFull_def)
  qed
qed

text \<open>The visited flags never split a component: they are closed under same-label adjacency.\<close>

definition visitedClosed :: "int list \<Rightarrow> nat \<Rightarrow> nat \<Rightarrow> (nat \<Rightarrow> bool) \<Rightarrow> bool" where
  "visitedClosed pixelLabels w h visited =
     (\<forall>i n. visited i \<and> adjacent w h i n \<and> pixelLabels ! n = pixelLabels ! i \<longrightarrow> visited n)"

lemma visitedClosedD:
  "visitedClosed pixelLabels w h visited \<Longrightarrow> visited i \<Longrightarrow> adjacent w h i n \<Longrightarrow>
   pixelLabels ! n = pixelLabels ! i \<Longrightarrow> visited n"
  unfolding visitedClosed_def by blast

lemma fillClosedD:
  "fillClosed pixelLabels w h colorIdx head (visited, queue, pixels) \<Longrightarrow> k < head \<Longrightarrow> k < length queue \<Longrightarrow>
   adjacent w h (queue ! k) n \<Longrightarrow> pixelLabels ! n = colorIdx \<Longrightarrow> visited n"
  unfolding fillClosed_def by simp

lemma floodFill_component:
  assumes seed: "\<not> visited0 idx" "idx < w * h" "pixelLabels ! idx = colorIdx"
    and closed: "visitedClosed pixelLabels w h visited0"
    and ff: "floodFill pixelLabels w h colorIdx 0 (visited0(idx := True), [idx], [idx]) = (visited', pixels, pixels)"
  shows "set pixels = component pixelLabels w h idx" "visitedClosed pixelLabels w h visited'"
proof -
  obtain head' where full: "fillFull pixelLabels w h visited0 idx colorIdx head' (visited', pixels, pixels)"
    and fin: "length pixels \<le> head'"
    using floodFill_fillFull [of visited0 idx w h pixelLabels colorIdx] seed ff by auto
  have inv: "fillInv pixelLabels w h visited0 idx colorIdx (visited', pixels, pixels)"
    and sub: "set pixels \<subseteq> component pixelLabels w h idx"
    and cl: "fillClosed pixelLabels w h colorIdx head' (visited', pixels, pixels)"
    using full by (simp_all add: fillFull_def)
  have v': "visited' i = (visited0 i \<or> i \<in> set pixels)" for i
    using inv by (simp add: fillInv_def)
  have px: "\<not> visited0 i" "i < w * h" "pixelLabels ! i = colorIdx" if "i \<in> set pixels" for i
    using inv that by (simp_all add: fillInv_def)
  have nb: "visited' n" if mem: "i \<in> set pixels" and adj: "adjacent w h i n"
    and lab: "pixelLabels ! n = colorIdx" for i n
  proof -
    obtain k where k: "k < length pixels" "pixels ! k = i"
      using mem by (auto simp: in_set_conv_nth)
    have "adjacent w h (pixels ! k) n"
      using adj k(2) by simp
    from fillClosedD [OF cl _ k(1) this lab] k(1) fin show ?thesis
      by simp
  qed
  have step: "n \<in> set pixels" if mem: "i \<in> set pixels" and adj: "adjacent w h i n"
    and lab: "pixelLabels ! n = pixelLabels ! i" for i n
  proof (rule ccontr)
    assume out: "n \<notin> set pixels"
    have "pixelLabels ! n = colorIdx"
      using lab px(3) [OF mem] by simp
    then have "visited' n"
      using nb [OF mem adj] by simp
    then have "visited0 n"
      using out v' [of n] by simp
    moreover have "adjacent w h n i"
      using px(2) [OF mem] adj by (rule adjacent_sym)
    ultimately have "visited0 i"
      using visitedClosedD [OF closed, of n i] lab by simp
    then show False
      using px(1) [OF mem] by simp
  qed
  have "n \<in> set pixels" if "n \<in> component pixelLabels w h idx" for n
    using that
  proof (induction rule: component.induct)
    case seed
    have "hd pixels = idx" "pixels \<noteq> []"
      using inv by (simp_all add: fillInv_def)
    then show ?case
      using hd_in_set [of pixels] by simp
  next
    case (grow i n)
    show ?case
      using step [OF grow.IH grow.hyps(2) grow.hyps(3)] .
  qed
  then show "set pixels = component pixelLabels w h idx"
    using sub by blast
  show "visitedClosed pixelLabels w h visited'"
    unfolding visitedClosed_def
  proof (intro allI impI, elim conjE)
    fix i n
    assume vi: "visited' i" and adj: "adjacent w h i n" and lab: "pixelLabels ! n = pixelLabels ! i"
    show "visited' n"
    proof (cases "visited0 i")
      case True
      then have "visited0 n"
        using visitedClosedD [OF closed _ adj lab] by simp
      then show ?thesis using v' [of n] by simp
    next
      case False
      then have mem: "i \<in> set pixels" using vi v' [of i] by simp
      show ?thesis
        using nb [OF mem adj] lab px(3) [OF mem] by simp
    qed
  qed
qed

section \<open>Invariants of the scan\<close>

text \<open>
  What holds of the scan state when the scan stands before pixel \<open>n\<close>: every earlier pixel
  is visited or excluded, and every region pushed so far is a whole component, seeded at
  its smallest pixel.
\<close>

definition regionOk :: "int list \<Rightarrow> nat \<Rightarrow> nat \<Rightarrow> nat \<Rightarrow> nat \<Rightarrow> (nat \<Rightarrow> bool) \<Rightarrow> nat list \<times> Region \<Rightarrow> bool" where
  "regionOk pixelLabels w h minArea n visited pr =
     (fst pr \<noteq> [] \<and> hd (fst pr) < n \<and>
      set (fst pr) = component pixelLabels w h (hd (fst pr)) \<and>
      (\<forall>i \<in> set (fst pr). visited i \<and> i < w * h \<and> pixelLabels ! i \<noteq> - 1 \<and> hd (fst pr) \<le> i) \<and>
      area (snd pr) = length (fst pr) \<and> minArea \<le> length (fst pr))"

definition scanInv :: "int list \<Rightarrow> nat \<Rightarrow> nat \<Rightarrow> nat \<Rightarrow> nat \<Rightarrow> scanState \<Rightarrow> bool" where
  "scanInv pixelLabels w h minArea n st =
     (case st of (visited, regs, pal) \<Rightarrow>
        (\<forall>i < n. visited i \<or> pixelLabels ! i = - 1) \<and>
        visitedClosed pixelLabels w h visited \<and>
        distinct (concat (map fst regs)) \<and>
        sorted_wrt (<) (map (\<lambda>pr. hd (fst pr)) regs) \<and>
        (\<forall>pr \<in> set regs. regionOk pixelLabels w h minArea n visited pr) \<and>
        (\<forall>i. visited i \<longrightarrow> (\<exists>pr \<in> set regs. i \<in> set (fst pr)) \<or>
                card (component pixelLabels w h i) < minArea))"

lemma regionOk_mono:
  assumes "regionOk pixelLabels w h minArea n visited pr" "\<And>i. visited i \<Longrightarrow> visited' i"
  shows "regionOk pixelLabels w h minArea (Suc n) visited' pr"
  using assms by (auto simp: regionOk_def)

lemma scanInv_skip:
  assumes "scanInv pixelLabels w h minArea n (visited, regs, pal)"
    "visited n \<or> pixelLabels ! n = - 1"
  shows "scanInv pixelLabels w h minArea (Suc n) (visited, regs, pal)"
proof -
  have "\<forall>i < Suc n. visited i \<or> pixelLabels ! i = - 1"
    using assms by (auto simp: scanInv_def less_Suc_eq)
  moreover have "\<forall>pr \<in> set regs. regionOk pixelLabels w h minArea (Suc n) visited pr"
    using assms(1) regionOk_mono [of pixelLabels w h minArea n visited _ visited]
    by (auto simp: scanInv_def)
  ultimately show ?thesis
    using assms(1) by (simp add: scanInv_def)
qed

lemma scanInv_fill:
  assumes inv: "scanInv pixelLabels w h minArea n (visited, regs, pal)"
    and seed: "\<not> visited n" "pixelLabels ! n \<noteq> - 1" "n < w * h"
    and ff: "floodFill pixelLabels w h (pixelLabels ! n) 0 (visited(n := True), [n], [n]) = (visited', pixels, pixels)"
    and fi: "fillInv pixelLabels w h visited n (pixelLabels ! n) (visited', pixels, pixels)"
  shows "length pixels < minArea \<Longrightarrow> scanInv pixelLabels w h minArea (Suc n) (visited', regs, pal')"
    and "minArea \<le> length pixels \<Longrightarrow> area reg = length pixels \<Longrightarrow>
         scanInv pixelLabels w h minArea (Suc n) (visited', regs @ [(pixels, reg)], pal')"
proof -
  have early: "\<forall>i < n. visited i \<or> pixelLabels ! i = - 1"
    and closed: "visitedClosed pixelLabels w h visited"
    and dist: "distinct (concat (map fst regs))"
    and sorted: "sorted_wrt (<) (map (\<lambda>pr. hd (fst pr)) regs)"
    and ok: "\<And>pr. pr \<in> set regs \<Longrightarrow> regionOk pixelLabels w h minArea n visited pr"
    and cover: "\<And>i. visited i \<Longrightarrow> (\<exists>pr \<in> set regs. i \<in> set (fst pr)) \<or>
                card (component pixelLabels w h i) < minArea"
    using inv by (simp_all add: scanInv_def)
  have comp: "set pixels = component pixelLabels w h n" and closed': "visitedClosed pixelLabels w h visited'"
    using floodFill_component [OF seed(1) seed(3) refl closed ff] by simp_all
  have px: "distinct pixels" "pixels \<noteq> []" "hd pixels = n"
    using fi by (simp_all add: fillInv_def)
  have v': "visited' i = (visited i \<or> i \<in> set pixels)" for i
    using fi by (simp add: fillInv_def)
  have new: "\<not> visited i" "i < w * h" "pixelLabels ! i = pixelLabels ! n" if "i \<in> set pixels" for i
    using fi that by (simp_all add: fillInv_def)
  have ge: "n \<le> i" if "i \<in> set pixels" for i
    using early new(1,3) [OF that] seed(2) by (metis not_le_imp_less)
  have nin: "n \<in> set pixels"
    using px hd_in_set [of pixels] by simp
  have early': "\<forall>i < Suc n. visited' i \<or> pixelLabels ! i = - 1"
    using early nin v' by (auto simp: less_Suc_eq)
  have ok': "regionOk pixelLabels w h minArea (Suc n) visited' pr" if "pr \<in> set regs" for pr
    using ok [OF that] v' regionOk_mono [of pixelLabels w h minArea n visited pr visited'] by simp
  have card: "card (component pixelLabels w h i) = length pixels" if "i \<in> set pixels" for i
  proof -
    have "component pixelLabels w h i = component pixelLabels w h n"
      using that comp seed(3) by (intro component_eq) simp_all
    then show ?thesis
      using comp px(1) distinct_card [of pixels] by simp
  qed
  show "scanInv pixelLabels w h minArea (Suc n) (visited', regs, pal')" if small: "length pixels < minArea"
  proof -
    have "(\<exists>pr \<in> set regs. i \<in> set (fst pr)) \<or> card (component pixelLabels w h i) < minArea"
      if "visited' i" for i
      using that v' [of i] cover [of i] card [of i] small by auto
    then show ?thesis
      using early' closed' dist sorted ok' by (simp add: scanInv_def)
  qed
  show "scanInv pixelLabels w h minArea (Suc n) (visited', regs @ [(pixels, reg)], pal')"
    if big: "minArea \<le> length pixels" and ar: "area reg = length pixels"
  proof -
    have old: "visited i" if "i \<in> set (concat (map fst regs))" for i
      using that ok by (auto simp: regionOk_def)
    have "distinct (concat (map fst (regs @ [(pixels, reg)])))"
      using dist px(1) old new(1) by auto
    moreover have "sorted_wrt (<) (map (\<lambda>pr. hd (fst pr)) (regs @ [(pixels, reg)]))"
      using sorted ok px(3) by (auto simp: sorted_wrt_append regionOk_def)
    moreover have "regionOk pixelLabels w h minArea (Suc n) visited' (pixels, reg)"
      using px comp v' new ge big ar seed(2) by (auto simp: regionOk_def)
    moreover have "(\<exists>pr \<in> set (regs @ [(pixels, reg)]). i \<in> set (fst pr)) \<or>
        card (component pixelLabels w h i) < minArea" if "visited' i" for i
      using that v' [of i] cover [of i] by auto
    ultimately show ?thesis
      using early' closed' ok' by (simp add: scanInv_def)
  qed
qed

lemma scanPixel_scanInv:
  assumes inv: "scanInv pixelLabels w h minArea (y * w + x) st" and rng: "y * w + x < w * h"
    and res: "scanPixel pixelLabels w h minArea x y st = Inr st'"
  shows "scanInv pixelLabels w h minArea (Suc (y * w + x)) st'"
proof (cases st)
  case (fields visited regs pal)
  show ?thesis
  proof (cases "visited (y * w + x) \<or> pixelLabels ! (y * w + x) = - 1")
    case True
    then have "st' = st"
      using res True scanPixel_skip [of visited y w x pixelLabels h minArea regs pal] by (simp add: fields)
    then show ?thesis
      using scanInv_skip [OF inv [unfolded fields] True] by (simp add: fields)
  next
    case False
    then have seed: "\<not> visited (y * w + x)" "pixelLabels ! (y * w + x) \<noteq> - 1"
      by simp_all
    from scanPixel_seed [OF seed rng res [unfolded fields]]
    obtain visited' pixels where
      ff: "floodFill pixelLabels w h (pixelLabels ! (y * w + x)) 0 (visited(y * w + x := True), [y * w + x], [y * w + x])
         = (visited', pixels, pixels)"
      and fi: "fillInv pixelLabels w h visited (y * w + x) (pixelLabels ! (y * w + x)) (visited', pixels, pixels)"
      and out: "length pixels < minArea \<and> st' = (visited', regs, pal) \<or>
       minArea \<le> length pixels \<and> 0 \<le> pixelLabels ! (y * w + x) \<and> nat (pixelLabels ! (y * w + x)) < length pal \<and>
       st' = (visited',
            regs @ [(pixels, \<lparr>path = traceRegionBoundary pixels w h x y,
                               colorId = id' (pal ! nat (pixelLabels ! (y * w + x))),
                               labelPoint = calculateLabelPoint pixels w, area = length pixels\<rparr>)],
            pal[nat (pixelLabels ! (y * w + x)) :=
              (pal ! nat (pixelLabels ! (y * w + x)))\<lparr>count := count (pal ! nat (pixelLabels ! (y * w + x))) + 1\<rparr>])"
      by blast
    note fill = scanInv_fill [OF inv [unfolded fields] seed rng ff fi]
    from out show ?thesis
    proof (elim disjE conjE)
      assume "length pixels < minArea" "st' = (visited', regs, pal)"
      then show ?thesis using fill(1) by simp
    next
      assume "minArea \<le> length pixels" and
        "st' = (visited',
            regs @ [(pixels, \<lparr>path = traceRegionBoundary pixels w h x y,
                               colorId = id' (pal ! nat (pixelLabels ! (y * w + x))),
                               labelPoint = calculateLabelPoint pixels w, area = length pixels\<rparr>)],
            pal[nat (pixelLabels ! (y * w + x)) :=
              (pal ! nat (pixelLabels ! (y * w + x)))\<lparr>count := count (pal ! nat (pixelLabels ! (y * w + x))) + 1\<rparr>])"
      then show ?thesis using fill(2) by simp
    qed
  qed
qed

lemma scanOrder_length: "length (scanOrder w h) = h * w"
  using arg_cong [OF scanOrder_index, of length w h] by simp

lemma scanLoop_scanOrder:
  assumes "I 0 st"
    and "scanLoop pixelLabels w h minArea (scanOrder w h) st = Inr st'"
    and step: "\<And>x y st st'. I (y * w + x) st \<Longrightarrow> y * w + x < w * h \<Longrightarrow>
           scanPixel pixelLabels w h minArea x y st = Inr st' \<Longrightarrow> I (Suc (y * w + x)) st'"
  shows "I (w * h) st'"
proof -
  have idx: "map (\<lambda>xy. snd xy * w + fst xy) (scanOrder w h) = [0..<0 + length (scanOrder w h)]"
    by (simp add: scanOrder_index scanOrder_length)
  have "I (Suc (y * w + x)) st'" if "I (y * w + x) st" "y * w + x < 0 + length (scanOrder w h)"
    "scanPixel pixelLabels w h minArea x y st = Inr st'" for x y st st'
  proof -
    have "y * w + x < w * h"
      using that(2) by (simp add: scanOrder_length mult.commute [of h w])
    then show ?thesis
      using step that(1,3) by blast
  qed
  from scanLoop_invariant [of I 0 st w "scanOrder w h" pixelLabels h minArea st', OF assms(1) idx assms(2) this]
  show ?thesis
    by (simp add: scanOrder_length mult.commute [of h w])
qed

lemma extractRegions_scanInv:
  assumes "extractRegions pixelLabels w h minArea pal = Inr st'"
  shows "scanInv pixelLabels w h minArea (w * h) st'"
proof (rule scanLoop_scanOrder [where I = "scanInv pixelLabels w h minArea"])
  show "scanInv pixelLabels w h minArea 0 (\<lambda>_. False, [], pal)"
    by (simp add: scanInv_def visitedClosed_def)
  show "scanLoop pixelLabels w h minArea (scanOrder w h) (\<lambda>_. False, [], pal) = Inr st'"
    using assms by (simp add: extractRegions_def)
qed (rule scanPixel_scanInv)

text \<open>
  The palette during the scan: entries change in their count only, and the count of entry
  \<open>j\<close> has grown by the number of regions pushed for label \<open>j\<close>.
\<close>

definition palInv :: "int list \<Rightarrow> PaletteColor list \<Rightarrow> scanState \<Rightarrow> bool" where
  "palInv pixelLabels pal0 st =
     (case st of (visited, regs, pal) \<Rightarrow>
        length pal = length pal0 \<and>
        (\<forall>j < length pal0. pal ! j =
           (pal0 ! j)\<lparr>count := count (pal0 ! j) + length (filter (\<lambda>pr. pixelLabels ! hd (fst pr) = int j) regs)\<rparr>) \<and>
        (\<forall>pr \<in> set regs. 0 \<le> pixelLabels ! hd (fst pr) \<and> nat (pixelLabels ! hd (fst pr)) < length pal0 \<and>
           colorId (snd pr) = id' (pal0 ! nat (pixelLabels ! hd (fst pr)))))"

lemma scanPixel_palInv:
  assumes inv: "palInv pixelLabels pal0 st" and rng: "y * w + x < w * h"
    and res: "scanPixel pixelLabels w h minArea x y st = Inr st'"
  shows "palInv pixelLabels pal0 st'"
proof (cases st)
  case (fields visited regs pal)
  show ?thesis
  proof (cases "visited (y * w + x) \<or> pixelLabels ! (y * w + x) = - 1")
    case True
    then have "st' = st"
      using res True scanPixel_skip [of visited y w x pixelLabels h minArea regs pal] by (simp add: fields)
    then show ?thesis
      using inv by simp
  next
    case False
    then have seed: "\<not> visited (y * w + x)" "pixelLabels ! (y * w + x) \<noteq> - 1"
      by simp_all
    let ?c = "pixelLabels ! (y * w + x)"
    from scanPixel_seed [OF seed rng res [unfolded fields]]
    obtain visited' pixels where
      fi: "fillInv pixelLabels w h visited (y * w + x) ?c (visited', pixels, pixels)"
      and out: "length pixels < minArea \<and> st' = (visited', regs, pal) \<or>
       minArea \<le> length pixels \<and> 0 \<le> ?c \<and> nat ?c < length pal \<and>
       st' = (visited',
            regs @ [(pixels, \<lparr>path = traceRegionBoundary pixels w h x y,
                               colorId = id' (pal ! nat ?c),
                               labelPoint = calculateLabelPoint pixels w, area = length pixels\<rparr>)],
            pal[nat ?c := (pal ! nat ?c)\<lparr>count := count (pal ! nat ?c) + 1\<rparr>])"
      by blast
    have hd: "hd pixels = y * w + x"
      using fi by (simp add: fillInv_def)
    from out show ?thesis
    proof (elim disjE conjE)
      assume "length pixels < minArea" "st' = (visited', regs, pal)"
      then show ?thesis using inv by (simp add: fields palInv_def)
    next
      assume c: "0 \<le> ?c" "nat ?c < length pal" and
        st': "st' = (visited',
            regs @ [(pixels, \<lparr>path = traceRegionBoundary pixels w h x y,
                               colorId = id' (pal ! nat ?c),
                               labelPoint = calculateLabelPoint pixels w, area = length pixels\<rparr>)],
            pal[nat ?c := (pal ! nat ?c)\<lparr>count := count (pal ! nat ?c) + 1\<rparr>])"
      have len: "length pal = length pal0"
        and old: "\<And>j. j < length pal0 \<Longrightarrow> pal ! j =
           (pal0 ! j)\<lparr>count := count (pal0 ! j) + length (filter (\<lambda>pr. pixelLabels ! hd (fst pr) = int j) regs)\<rparr>"
        and refs: "\<forall>pr \<in> set regs. 0 \<le> pixelLabels ! hd (fst pr) \<and> nat (pixelLabels ! hd (fst pr)) < length pal0 \<and>
           colorId (snd pr) = id' (pal0 ! nat (pixelLabels ! hd (fst pr)))"
        using inv by (simp_all add: fields palInv_def)
      have idc: "id' (pal ! nat ?c) = id' (pal0 ! nat ?c)"
        using old [of "nat ?c"] c len by simp
      have "(pal[nat ?c := (pal ! nat ?c)\<lparr>count := count (pal ! nat ?c) + 1\<rparr>]) ! j =
           (pal0 ! j)\<lparr>count := count (pal0 ! j) +
              length (filter (\<lambda>pr. pixelLabels ! hd (fst pr) = int j) (regs @ [(pixels, \<lparr>path = traceRegionBoundary pixels w h x y,
                               colorId = id' (pal ! nat ?c),
                               labelPoint = calculateLabelPoint pixels w, area = length pixels\<rparr>)]))\<rparr>"
        if "j < length pal0" for j
      proof (cases "j = nat ?c")
        case True
        then show ?thesis
          using old [OF that] that len c hd by simp
      next
        case False
        then have "?c \<noteq> int j" using c by auto
        then show ?thesis
          using old [OF that] that len False hd by simp
      qed
      then show ?thesis
        using len refs c idc hd by (simp add: st' palInv_def)
    qed
  qed
qed

lemma extractRegions_palInv:
  assumes "extractRegions pixelLabels w h minArea pal = Inr st'"
  shows "palInv pixelLabels pal st'"
proof (rule scanLoop_scanOrder [where I = "\<lambda>_. palInv pixelLabels pal"])
  show "palInv pixelLabels pal (\<lambda>_. False, [], pal)"
    by (simp add: palInv_def)
  show "scanLoop pixelLabels w h minArea (scanOrder w h) (\<lambda>_. False, [], pal) = Inr st'"
    using assms by (simp add: extractRegions_def)
qed (rule scanPixel_palInv)

lemma distinct_concat_disjoint:
  assumes "distinct (concat xss)" "a < c" "c < length xss"
  shows "set (xss ! a) \<inter> set (xss ! c) = {}"
  using assms
proof (induction xss arbitrary: a c)
  case Nil
  then show ?case by simp
next
  case (Cons xs xss)
  show ?case
  proof (cases a)
    case 0
    then obtain c' where c': "c = Suc c'" "c' < length xss"
      using Cons.prems by (cases c) auto
    then have "set (xss ! c') \<subseteq> \<Union> (set ` set xss)"
      using nth_mem [of c' xss] by blast
    then show ?thesis
      using Cons.prems(1) 0 c' by auto
  next
    case (Suc a')
    then obtain c' where c': "c = Suc c'" "a' < c'" "c' < length xss"
      using Cons.prems by (cases c) auto
    then show ?thesis
      using Cons.IH [of a' c'] Cons.prems(1) Suc by simp
  qed
qed

lemma scanPixel_total:
  assumes "y * w + x < w * h"
    "pixelLabels ! (y * w + x) = - 1 \<or> 0 \<le> pixelLabels ! (y * w + x) \<and> nat (pixelLabels ! (y * w + x)) < length (snd (snd st))"
  shows "\<exists>st'. scanPixel pixelLabels w h minArea x y st = Inr st' \<and> length (snd (snd st')) = length (snd (snd st))"
  using assms by (cases st) (auto simp: scanPixel_def Let_def split: prod.splits)

lemma scanLoop_total:
  assumes "\<forall>xy \<in> set xys. snd xy * w + fst xy < w * h"
    "\<forall>i < w * h. pixelLabels ! i = - 1 \<or> 0 \<le> pixelLabels ! i \<and> nat (pixelLabels ! i) < length (snd (snd st))"
  shows "\<exists>st'. scanLoop pixelLabels w h minArea xys st = Inr st'"
  using assms
proof (induction xys arbitrary: st)
  case Nil
  show ?case by (intro exI [of _ st]) simp
next
  case (Cons xy xys)
  have rng: "snd xy * w + fst xy < w * h"
    using Cons.prems(1) by simp
  from scanPixel_total [OF rng, of pixelLabels st minArea] Cons.prems(2) rng
  obtain st1 where st1: "scanPixel pixelLabels w h minArea (fst xy) (snd xy) st = Inr st1"
    "length (snd (snd st1)) = length (snd (snd st))"
    by blast
  from Cons.IH [of st1] Cons.prems st1(2) obtain st' where
    "scanLoop pixelLabels w h minArea xys st1 = Inr st'"
    by auto
  then show ?case
    using st1(1) by (intro exI [of _ st']) simp
qed

lemma scanOrder_in_range: "xy \<in> set (scanOrder w h) \<Longrightarrow> snd xy * w + fst xy < w * h"
proof -
  assume "xy \<in> set (scanOrder w h)"
  then have "snd xy * w + fst xy \<in> set (map (\<lambda>xy. snd xy * w + fst xy) (scanOrder w h))"
    by (rule imageI [of xy "set (scanOrder w h)" "\<lambda>xy. snd xy * w + fst xy", unfolded set_map [symmetric]])
  then show ?thesis
    by (simp add: scanOrder_index mult.commute [of h w])
qed

text \<open>With every label the sentinel or an index into the palette, the scan throws nothing.\<close>

lemma extractRegions_total:
  assumes "\<forall>i < w * h. pixelLabels ! i = - 1 \<or> 0 \<le> pixelLabels ! i \<and> nat (pixelLabels ! i) < length pal"
  shows "\<exists>st'. extractRegions pixelLabels w h minArea pal = Inr st'"
  unfolding extractRegions_def
  using assms by (intro scanLoop_total) (auto dest: scanOrder_in_range)

section \<open>A worked label map\<close>

text \<open>
  A 3 by 3 label map with a sentinel at pixels 3 and 7, a component of two pixels, one of
  four and one of a single pixel, scanned with threshold 2.
\<close>

definition exLabels :: "int list" where
  "exLabels = [0, 0, 1, - 1, 1, 1, 2, - 1, 1]"

definition exPalette :: "PaletteColor list" where
  "exPalette = map (toPaletteColor [\<lparr>r = 255, g = 0, b = 0\<rparr>, \<lparr>r = 0, g = 255, b = 0\<rparr>, \<lparr>r = 0, g = 0, b = 255\<rparr>]) [0, 1, 2]"

definition exVisited :: "nat \<Rightarrow> bool" where
  "exVisited = (\<lambda>_. False)(0 := True, 1 := True, 2 := True, 5 := True, 4 := True, 8 := True, 6 := True)"

definition exRegions :: "(nat list \<times> Region) list" where
  "exRegions =
     [([0, 1], \<lparr>path = traceRegionBoundary [0, 1] 3 3 0 0, colorId = 1, labelPoint = (1, 1 / 2), area = 2\<rparr>),
      ([2, 5, 4, 8], \<lparr>path = traceRegionBoundary [2, 5, 4, 8] 3 3 2 0, colorId = 2, labelPoint = (9 / 4, 3 / 2), area = 4\<rparr>)]"

definition exCounted :: "PaletteColor list" where
  "exCounted = [(exPalette ! 0)\<lparr>count := 1\<rparr>, (exPalette ! 1)\<lparr>count := 1\<rparr>, exPalette ! 2]"

lemma upt3: "[0..<3] = [0, 1, 2]"
  by (simp add: upt_rec)

lemma exLabels_length: "length exLabels = 3 * 3"
  by (simp add: exLabels_def)

lemma ex_scanOrder:
  "scanOrder 3 3 = [(0, 0), (1, 0), (2, 0), (0, 1), (1, 1), (2, 1), (0, 2), (1, 2), (2, 2)]"
  by (simp add: scanOrder_def upt3)

lemma ex_extractRegions: "extractRegions exLabels 3 3 2 exPalette = Inr (exVisited, exRegions, exCounted)"
  by (simp add: extractRegions_def ex_scanOrder scanPixel_def floodFill.simps visitNeighbor_def directions_def
    exLabels_def exPalette_def toPaletteColor_def calculateLabelPoint_def exVisited_def exRegions_def exCounted_def
    numeral_2_eq_2 [symmetric])

section \<open>Claims on region extraction\<close>

text \<open>
  C1 (partition). For every label map, the pixel lists of two different regions pushed by
  the scan share no pixel, and every pixel of a region is a pixel of the image whose label
  is not the sentinel \<open>-1\<close>.
\<close>

theorem regions_partition:
  assumes "length pixelLabels = w * h"
    and "extractRegions pixelLabels w h minArea pal = Inr (visited, regs, pal')"
  shows "(\<forall>a c. a < c \<and> c < length regs \<longrightarrow> set (fst (regs ! a)) \<inter> set (fst (regs ! c)) = {}) \<and>
         (\<forall>pr \<in> set regs. \<forall>i \<in> set (fst pr). i < w * h \<and> pixelLabels ! i \<noteq> - 1)"
proof -
  have inv: "scanInv pixelLabels w h minArea (w * h) (visited, regs, pal')"
    using assms(2) by (rule extractRegions_scanInv)
  then have "distinct (concat (map fst regs))"
    by (simp add: scanInv_def)
  then have "set (fst (regs ! a)) \<inter> set (fst (regs ! c)) = {}" if "a < c" "c < length regs" for a c
    using distinct_concat_disjoint [of "map fst regs" a c] that by simp
  moreover have "\<forall>pr \<in> set regs. \<forall>i \<in> set (fst pr). i < w * h \<and> pixelLabels ! i \<noteq> - 1"
    using inv by (simp add: scanInv_def regionOk_def)
  ultimately show ?thesis
    by blast
qed

theorem regions_partition_witness:
  "length exLabels = 3 * 3 \<and>
   extractRegions exLabels 3 3 2 exPalette = Inr (exVisited, exRegions, exCounted) \<and>
   set (fst (exRegions ! 0)) \<inter> set (fst (exRegions ! 1)) = {} \<and>
   exLabels ! 8 \<noteq> - 1"
proof -
  have "0 < (1::nat) \<and> 1 < length exRegions" "exRegions ! 1 \<in> set exRegions" "8 \<in> set (fst (exRegions ! 1))"
    by (simp_all add: exRegions_def)
  then show ?thesis
    using regions_partition [OF exLabels_length ex_extractRegions] exLabels_length ex_extractRegions
    by blast
qed

text \<open>
  C10 (scan order). The first pixel of every pushed region's pixel list is the smallest
  index of the region's connected component, which the list holds whole, and these first
  pixels increase strictly along the region list.
\<close>

theorem regions_ordered:
  assumes "length pixelLabels = w * h"
    and "extractRegions pixelLabels w h minArea pal = Inr (visited, regs, pal')"
  shows "sorted_wrt (<) (map (\<lambda>pr. hd (fst pr)) regs) \<and>
         (\<forall>pr \<in> set regs. fst pr \<noteq> [] \<and>
            set (fst pr) = component pixelLabels w h (hd (fst pr)) \<and>
            (\<forall>i \<in> component pixelLabels w h (hd (fst pr)). hd (fst pr) \<le> i))"
proof -
  have inv: "scanInv pixelLabels w h minArea (w * h) (visited, regs, pal')"
    using assms(2) by (rule extractRegions_scanInv)
  then have "sorted_wrt (<) (map (\<lambda>pr. hd (fst pr)) regs)"
    by (simp add: scanInv_def)
  moreover have "fst pr \<noteq> [] \<and> set (fst pr) = component pixelLabels w h (hd (fst pr)) \<and>
            (\<forall>i \<in> component pixelLabels w h (hd (fst pr)). hd (fst pr) \<le> i)" if "pr \<in> set regs" for pr
  proof -
    have "regionOk pixelLabels w h minArea (w * h) visited pr"
      using inv that by (simp add: scanInv_def)
    then show ?thesis
      by (auto simp: regionOk_def)
  qed
  ultimately show ?thesis
    by blast
qed

theorem regions_ordered_witness:
  "length exLabels = 3 * 3 \<and>
   extractRegions exLabels 3 3 2 exPalette = Inr (exVisited, exRegions, exCounted) \<and>
   map (\<lambda>pr. hd (fst pr)) exRegions = [0, 2] \<and>
   component exLabels 3 3 2 = {2, 4, 5, 8}"
proof -
  let ?pr = "exRegions ! 1"
  have pr: "?pr \<in> set exRegions" and px: "fst ?pr = [2, 5, 4, 8]"
    and hds: "map (\<lambda>pr. hd (fst pr)) exRegions = [0, 2]"
    by (simp_all add: exRegions_def)
  have "\<forall>pr \<in> set exRegions. fst pr \<noteq> [] \<and>
      set (fst pr) = component exLabels 3 3 (hd (fst pr)) \<and>
      (\<forall>i \<in> component exLabels 3 3 (hd (fst pr)). hd (fst pr) \<le> i)"
    using regions_ordered [OF exLabels_length ex_extractRegions] by blast
  then have "set (fst ?pr) = component exLabels 3 3 (hd (fst ?pr))"
    using pr by blast
  then have "component exLabels 3 3 2 = set [2, 5, 4, 8]"
    by (simp only: px list.sel)
  then have "component exLabels 3 3 2 = {2, 4, 5, 8}"
    by (simp add: insert_commute)
  then show ?thesis
    using hds exLabels_length ex_extractRegions by blast
qed

lemma regionOk_component:
  assumes "regionOk pixelLabels w h minArea n visited pr" "i \<in> set (fst pr)"
  shows "component pixelLabels w h i = set (fst pr)"
proof -
  have "fst pr \<noteq> []"
    using assms(1) by (simp add: regionOk_def)
  then have hd: "hd (fst pr) \<in> set (fst pr)"
    by (rule hd_in_set)
  moreover have "\<forall>i \<in> set (fst pr). i < w * h"
    using assms(1) by (simp add: regionOk_def)
  ultimately have "hd (fst pr) < w * h"
    by blast
  moreover have "i \<in> component pixelLabels w h (hd (fst pr))"
    using assms by (simp add: regionOk_def)
  ultimately have "component pixelLabels w h i = component pixelLabels w h (hd (fst pr))"
    by (intro component_eq)
  then show ?thesis
    using assms(1) by (simp add: regionOk_def)
qed

text \<open>
  C4 (area and threshold). The area of a pushed region is the length of the pixel list its
  flood fill collected, which is the size of the seed's connected component, and it is at
  least the threshold. A pixel whose component is smaller than the threshold is in no
  region; a pixel whose component reaches the threshold is in a region that is that
  component. A palette count grows by the number of regions pushed for its label and by
  nothing else.
\<close>

theorem regions_area:
  assumes "length pixelLabels = w * h"
    and "extractRegions pixelLabels w h minArea pal = Inr (visited, regs, pal')"
  shows "(\<forall>pr \<in> set regs. area (snd pr) = length (fst pr) \<and>
            area (snd pr) = card (component pixelLabels w h (hd (fst pr))) \<and>
            minArea \<le> area (snd pr)) \<and>
         (\<forall>i < w * h. pixelLabels ! i \<noteq> - 1 \<and> card (component pixelLabels w h i) < minArea \<longrightarrow>
            (\<forall>pr \<in> set regs. i \<notin> set (fst pr))) \<and>
         (\<forall>i < w * h. pixelLabels ! i \<noteq> - 1 \<and> minArea \<le> card (component pixelLabels w h i) \<longrightarrow>
            (\<exists>pr \<in> set regs. set (fst pr) = component pixelLabels w h i)) \<and>
         (\<forall>j < length pal. pal' ! j =
            (pal ! j)\<lparr>count := count (pal ! j) + length (filter (\<lambda>pr. pixelLabels ! hd (fst pr) = int j) regs)\<rparr>)"
proof -
  have inv: "scanInv pixelLabels w h minArea (w * h) (visited, regs, pal')"
    using assms(2) by (rule extractRegions_scanInv)
  have ok: "regionOk pixelLabels w h minArea (w * h) visited pr" if "pr \<in> set regs" for pr
    using inv that by (simp add: scanInv_def)
  have dist: "distinct (fst pr)" if "pr \<in> set regs" for pr
  proof -
    have "distinct (concat (map fst regs))"
      using inv by (simp add: scanInv_def)
    then show ?thesis
      using that by (simp add: distinct_concat_iff)
  qed
  have len: "length (fst pr) = card (component pixelLabels w h i)" if "pr \<in> set regs" "i \<in> set (fst pr)" for pr i
    using regionOk_component [OF ok [OF that(1)] that(2)] distinct_card [OF dist [OF that(1)]] by simp
  have a: "area (snd pr) = length (fst pr) \<and>
            area (snd pr) = card (component pixelLabels w h (hd (fst pr))) \<and>
            minArea \<le> area (snd pr)" if "pr \<in> set regs" for pr
  proof -
    have "fst pr \<noteq> []"
      using ok [OF that] by (simp add: regionOk_def)
    then have "hd (fst pr) \<in> set (fst pr)"
      by (rule hd_in_set)
    then show ?thesis
      using len [OF that, of "hd (fst pr)"] ok [OF that] by (simp add: regionOk_def)
  qed
  have b: "i \<notin> set (fst pr)" if "card (component pixelLabels w h i) < minArea" "pr \<in> set regs" for i pr
  proof
    assume "i \<in> set (fst pr)"
    then have "length (fst pr) = card (component pixelLabels w h i)"
      using len that(2) by blast
    then show False
      using that(1) ok [OF that(2)] by (simp add: regionOk_def)
  qed
  have c: "\<exists>pr \<in> set regs. set (fst pr) = component pixelLabels w h i"
    if rng: "i < w * h" and lab: "pixelLabels ! i \<noteq> - 1"
      and big: "minArea \<le> card (component pixelLabels w h i)" for i
  proof -
    have "\<forall>i < w * h. visited i \<or> pixelLabels ! i = - 1"
      using inv by (simp add: scanInv_def)
    then have "visited i"
      using rng lab by blast
    then have "(\<exists>pr \<in> set regs. i \<in> set (fst pr)) \<or> card (component pixelLabels w h i) < minArea"
      using inv by (simp add: scanInv_def)
    then obtain pr where pr: "pr \<in> set regs" "i \<in> set (fst pr)"
      using big by auto
    then show ?thesis
      using regionOk_component [OF ok [OF pr(1)] pr(2)] by auto
  qed
  have "palInv pixelLabels pal (visited, regs, pal')"
    using assms(2) by (rule extractRegions_palInv)
  then have d: "\<forall>j < length pal. pal' ! j =
            (pal ! j)\<lparr>count := count (pal ! j) + length (filter (\<lambda>pr. pixelLabels ! hd (fst pr) = int j) regs)\<rparr>"
    by (simp add: palInv_def)
  show ?thesis
    using a b c d by blast
qed

lemma ex_component6: "component exLabels 3 3 6 = {6}"
proof -
  have "n = 6" if "n \<in> component exLabels 3 3 6" for n
    using that
    by (induction rule: component.induct) (auto simp: adjacent_def directions_def exLabels_def)
  then show ?thesis
    using component.seed [of 6 exLabels 3 3] by auto
qed

theorem regions_area_witness:
  "length exLabels = 3 * 3 \<and>
   extractRegions exLabels 3 3 2 exPalette = Inr (exVisited, exRegions, exCounted) \<and>
   map (\<lambda>pr. area (snd pr)) exRegions = [2, 4] \<and>
   card (component exLabels 3 3 2) = 4 \<and>
   card (component exLabels 3 3 6) < 2 \<and> 6 \<notin> set (fst (exRegions ! 0)) \<and> 6 \<notin> set (fst (exRegions ! 1)) \<and>
   count (exCounted ! 2) = count (exPalette ! 2)"
proof -
  note facts = regions_area [OF exLabels_length ex_extractRegions]
  have regs: "exRegions ! 0 \<in> set exRegions" "exRegions ! 1 \<in> set exRegions"
    and areas: "map (\<lambda>pr. area (snd pr)) exRegions = [2, 4]"
    and hd1: "hd (fst (exRegions ! 1)) = 2" "area (snd (exRegions ! 1)) = 4"
    by (simp_all add: exRegions_def)
  have "area (snd (exRegions ! 1)) = card (component exLabels 3 3 (hd (fst (exRegions ! 1))))"
    using facts regs(2) by blast
  then have c2: "card (component exLabels 3 3 2) = 4"
    using hd1 by simp
  have small: "(6::nat) < 3 * 3" "exLabels ! 6 \<noteq> - 1"
    by (simp_all add: exLabels_def)
  have small3: "card (component exLabels 3 3 6) < 2"
    by (simp add: ex_component6)
  have "\<forall>pr \<in> set exRegions. 6 \<notin> set (fst pr)"
    using facts small small3 by blast
  then have out: "6 \<notin> set (fst (exRegions ! 0))" "6 \<notin> set (fst (exRegions ! 1))"
    using regs by blast+
  have "count (exCounted ! 2) = count (exPalette ! 2)"
    by (simp add: exCounted_def)
  then show ?thesis
    using exLabels_length ex_extractRegions areas c2 small3 out by blast
qed

section \<open>The quantizer and the labeller: basic facts\<close>

lemma nearestStep_index: "snd (nearestStep p cs j st) \<in> {snd st, j}"
  by (cases st) (auto simp: nearestStep_def Let_def)

lemma nearest_fold_index: "snd (fold (nearestStep p cs) js st) \<in> insert (snd st) (set js)"
proof (induction js arbitrary: st)
  case Nil
  show ?case by simp
next
  case (Cons j js)
  show ?case
    using Cons.IH [of "nearestStep p cs j st"] nearestStep_index [of p cs j st] by auto
qed

lemma nearest_less: "cs \<noteq> [] \<Longrightarrow> nearest p cs < length cs"
  using nearest_fold_index [of p cs "[0..<length cs]" "(None, 0)"]
  by (auto simp: nearest_def)

lemma nearest_Nil: "nearest p [] = 0"
  by (simp add: nearest_def)

lemma assignPixels_length:
  "assignPixels data cs offs acc = Inr acc' \<Longrightarrow> length acc' = length acc"
  by (induction offs arbitrary: acc) (auto simp: Let_def split: if_splits)

lemma assignPixels_total:
  "cs \<noteq> [] \<Longrightarrow> length acc = length cs \<Longrightarrow> \<exists>acc'. assignPixels data cs offs acc = Inr acc'"
proof (induction offs arbitrary: acc)
  case Nil
  show ?case by simp
next
  case (Cons i offs)
  then show ?case
    using nearest_less [of cs "pixelAt data i"] by (simp add: Let_def)
qed

lemma assignPixels_transparent:
  "\<forall>i \<in> set offs. data ! (i + 3) < 128 \<Longrightarrow> assignPixels data cs offs acc = Inr acc"
  by (induction offs) simp_all

lemma kmeansPass_length: "kmeansPass data cs = Inr cs' \<Longrightarrow> length cs' = length cs"
  by (auto simp: kmeansPass_def split: sum.splits)

lemma kmeansPass_total: "cs \<noteq> [] \<Longrightarrow> \<exists>cs'. kmeansPass data cs = Inr cs'"
  using assignPixels_total [of cs "map (\<lambda>_. \<lparr>r = 0, g = 0, b = 0, cnt = 0\<rparr>) cs" data "pixelOffsets data"]
  by (auto simp: kmeansPass_def)

lemma kmeansLoop_length: "kmeansLoop n data cs = Inr cs' \<Longrightarrow> length cs' = length cs"
proof (induction n arbitrary: cs)
  case 0
  then show ?case by simp
next
  case (Suc n)
  then show ?case
    by (auto split: sum.splits dest: kmeansPass_length)
qed

lemma kmeansLoop_total: "cs \<noteq> [] \<Longrightarrow> \<exists>cs'. kmeansLoop n data cs = Inr cs'"
proof (induction n arbitrary: cs)
  case 0
  show ?case by simp
next
  case (Suc n)
  obtain cs1 where cs1: "kmeansPass data cs = Inr cs1"
    using kmeansPass_total [OF Suc.prems] by blast
  then have "cs1 \<noteq> []"
    using kmeansPass_length [OF cs1] Suc.prems by auto
  from Suc.IH [OF this] show ?case
    using cs1 by simp
qed

lemma kmeansPass_transparent:
  assumes "\<forall>i \<in> set (pixelOffsets data). data ! (i + 3) < 128"
  shows "kmeansPass data cs = Inr cs"
proof -
  let ?zero = "map (\<lambda>_. \<lparr>r = 0, g = 0, b = 0, cnt = 0\<rparr>) cs"
  have "map (\<lambda>j. updateCentroid (cs ! j) (?zero ! j)) [0..<length cs] = map (\<lambda>j. cs ! j) [0..<length cs]"
    by (intro map_cong) (simp_all add: updateCentroid_def)
  then have "map (\<lambda>j. updateCentroid (cs ! j) (?zero ! j)) [0..<length cs] = cs"
    by (simp add: map_nth)
  then show ?thesis
    using assignPixels_transparent [OF assms, of cs ?zero] by (simp add: kmeansPass_def)
qed

lemma kmeansLoop_transparent:
  assumes "\<forall>i \<in> set (pixelOffsets data). data ! (i + 3) < 128"
  shows "kmeansLoop n data cs = Inr cs"
  by (induction n) (simp_all add: kmeansPass_transparent [OF assms])

lemma initCentroids_length: "length (initCentroids data k rnd) = k"
  by (simp add: initCentroids_def)

text \<open>The palette the quantizer returns: \<open>k\<close> entries, numbered from 1, with count 0.\<close>

lemma getQuantizedPalette_shape:
  assumes "getQuantizedPalette data k rnd = Inr pal"
  shows "length pal = k" "\<forall>j < k. id' (pal ! j) = j + 1 \<and> count (pal ! j) = 0"
proof -
  obtain cs where cs: "kmeansLoop iterations data (initCentroids data k rnd) = Inr cs"
    and pal: "pal = map (toPaletteColor cs) [0..<length cs]"
    using assms by (auto simp: getQuantizedPalette_def split: sum.splits)
  have "length cs = k"
    using kmeansLoop_length [OF cs] by (simp add: initCentroids_length)
  then show "length pal = k" "\<forall>j < k. id' (pal ! j) = j + 1 \<and> count (pal ! j) = 0"
    using pal by (simp_all add: toPaletteColor_def)
qed

lemma getQuantizedPalette_total:
  assumes "0 < k"
  shows "\<exists>pal. getQuantizedPalette data k rnd = Inr pal"
proof -
  have "initCentroids data k rnd \<noteq> []"
    using assms initCentroids_length [of data k rnd] by auto
  from kmeansLoop_total [OF this, of iterations data] show ?thesis
    by (auto simp: getQuantizedPalette_def)
qed

lemma pixelOffsets_exact: "length data = 4 * n \<Longrightarrow> pixelOffsets data = map (\<lambda>q. 4 * q) [0..<n]"
  by (simp add: pixelOffsets_def)

text \<open>The label map, pixel by pixel.\<close>

definition labelOf :: "buffer \<Rightarrow> PaletteColor list \<Rightarrow> nat \<Rightarrow> int" where
  "labelOf data pal q =
     (if data ! (4 * q + 3) < 128 then - 1 else int (nearest (pixelAt data (4 * q)) pal))"

lemma labelStep_fold:
  "m \<le> n \<Longrightarrow> fold (labelStep data pal) (map (\<lambda>q. 4 * q) [0..<m]) (replicate n 0) =
     map (labelOf data pal) [0..<m] @ replicate (n - m) 0"
proof (induction m)
  case 0
  show ?case by simp
next
  case (Suc m)
  have "(map (labelOf data pal) [0..<m] @ replicate (n - m) 0)[m := v] =
      map (labelOf data pal) [0..<m] @ v # replicate (n - Suc m) 0" for v
  proof -
    have "replicate (n - m) (0::int) = 0 # replicate (n - Suc m) 0"
      using Suc.prems by (cases "n - m") (auto simp: Suc_diff_Suc)
    then show ?thesis
      by (simp add: list_update_append)
  qed
  moreover have "labelStep data pal (4 * m) xs = xs[m := labelOf data pal m]" for xs
    by (simp add: labelStep_def labelOf_def)
  ultimately show ?case
    using Suc by simp
qed

lemma labelPixels_eq:
  assumes "length data = 4 * (w * h)"
  shows "labelPixels data w h pal = map (labelOf data pal) [0..<w * h]"
  using labelStep_fold [of "w * h" "w * h" data pal] pixelOffsets_exact [OF assms]
  by (simp add: labelPixels_def)

lemma labelPixels_range:
  assumes "length data = 4 * (w * h)" "pal \<noteq> []" "i < w * h"
  shows "labelPixels data w h pal ! i = - 1 \<or>
         0 \<le> labelPixels data w h pal ! i \<and> nat (labelPixels data w h pal ! i) < length pal"
  using assms nearest_less [OF assms(2)] by (simp add: labelPixels_eq labelOf_def)

lemma scanLoop_all_skip:
  assumes "\<forall>xy \<in> set xys. pixelLabels ! (snd xy * w + fst xy) = - 1"
  shows "scanLoop pixelLabels w h minArea xys st = Inr st"
  using assms
proof (induction xys)
  case Nil
  show ?case by simp
next
  case (Cons xy xys)
  then show ?case
    by (cases st) (simp add: scanPixel_def)
qed

lemma labelPixels_transparent:
  assumes "length data = 4 * (w * h)" "i < w * h" "data ! (4 * i + 3) < 128"
  shows "labelPixels data w h pal ! i = - 1"
  using assms by (simp add: labelPixels_eq labelOf_def)

section \<open>Claims on the pipeline\<close>

text \<open>
  C9 (fully transparent buffer). When every pixel of the buffer has alpha below 128, the
  pipeline throws nothing and returns the buffer's width and height, no region and an
  empty palette, whatever the number of colours and the random draws.
\<close>

theorem transparent_buffer:
  assumes "length data = 4 * (w * h)"
    and "\<forall>q < w * h. data ! (4 * q + 3) < 128"
  shows "processImage data w h imageUrl numColors rnd =
     Inr \<lparr>width = w, height = h, palette = [], regions = [], originalUrl = imageUrl\<rparr>"
proof -
  have offs: "\<forall>i \<in> set (pixelOffsets data). data ! (i + 3) < 128"
    using assms by (auto simp: pixelOffsets_exact [OF assms(1)])
  let ?cs = "initCentroids data numColors rnd"
  let ?pal = "map (toPaletteColor ?cs) [0..<length ?cs]"
  have pal: "getQuantizedPalette data numColors rnd = Inr ?pal"
    by (simp add: getQuantizedPalette_def kmeansLoop_transparent [OF offs])
  have "labelPixels data w h ?pal ! (snd xy * w + fst xy) = - 1" if "xy \<in> set (scanOrder w h)" for xy
  proof -
    have "snd xy * w + fst xy < w * h"
      using that by (rule scanOrder_in_range)
    moreover from this have "data ! (4 * (snd xy * w + fst xy) + 3) < 128"
      using assms(2) by blast
    ultimately show ?thesis
      using assms(1) by (rule labelPixels_transparent [rotated])
  qed
  then have "\<forall>xy \<in> set (scanOrder w h). labelPixels data w h ?pal ! (snd xy * w + fst xy) = - 1"
    by blast
  then have ext: "extractRegions (labelPixels data w h ?pal) w h minRegionArea ?pal = Inr (\<lambda>_. False, [], ?pal)"
    unfolding extractRegions_def by (rule scanLoop_all_skip)
  have "filter (\<lambda>p. count p > 0) ?pal = []"
    by (simp add: filter_empty_conv toPaletteColor_def)
  then show ?thesis
    using pal ext by (simp add: processImage_def processImageWith_def)
qed

definition exTransparent :: buffer where
  "exTransparent = [10, 20, 30, 0, 40, 50, 60, 127]"

theorem transparent_buffer_witness:
  "length exTransparent = 4 * (2 * 1) \<and> exTransparent ! 3 < 128 \<and> exTransparent ! 7 < 128 \<and>
   processImage exTransparent 2 1 ''cat.png'' 3 (\<lambda>_. 0) =
     Inr \<lparr>width = 2, height = 1, palette = [], regions = [], originalUrl = ''cat.png''\<rparr>"
proof -
  have len: "length exTransparent = 4 * (2 * 1)"
    by (simp add: exTransparent_def)
  have a: "exTransparent ! 3 < 128" "exTransparent ! 7 < 128"
    by (simp_all add: exTransparent_def)
  have "\<forall>q < 2 * 1. exTransparent ! (4 * q + 3) < 128"
    using a by (auto simp: less_2_cases_iff)
  from transparent_buffer [OF len this] show ?thesis
    using len a by blast
qed

text \<open>
  C2 (initial centroids). The claim that every initial centroid is the colour of an opaque
  pixel fails: the pixel number is drawn among all pixels, and alpha is not read. With
  pixel 0 transparent and pixel 1 opaque, the draw 0 seeds the centroid with the colour of
  the transparent pixel, which is the colour of no opaque pixel.
\<close>

definition exMixed :: buffer where
  "exMixed = [0, 0, 0, 0, 255, 0, 0, 255]"

theorem init_centroids_counterexample:
  "exMixed ! 3 < 128 \<and> \<not> exMixed ! 7 < 128 \<and> length exMixed = 4 * 2 \<and>
   initCentroids exMixed 1 (\<lambda>_. 0) = [pixelAt exMixed 0] \<and>
   pixelAt exMixed 0 \<noteq> pixelAt exMixed 4"
  by (simp add: exMixed_def initCentroids_def randomIdx_def pixelAt_def)

text \<open>
  C2 as the code has it: each of the \<open>k\<close> initial centroids is the colour of the pixel
  whose number was drawn, a pixel of the buffer, transparent or not; the alpha bytes have no
  part in the initialization.
\<close>

theorem init_centroids_any_pixel:
  assumes "length data = 4 * n"
    and "\<forall>i < k. rnd i < n"
  shows "length (initCentroids data k rnd) = k \<and>
         (\<forall>i < k. 4 * rnd i + 3 < length data \<and>
            initCentroids data k rnd ! i = pixelAt data (4 * rnd i)) \<and>
         (\<forall>data'. length data' = length data \<and> (\<forall>j. j mod 4 \<noteq> 3 \<longrightarrow> data' ! j = data ! j) \<longrightarrow>
            initCentroids data' k rnd = initCentroids data k rnd)"
proof -
  have rng: "4 * rnd i + 3 < length data" if "i < k" for i
    using assms that by (auto simp: less_eq_Suc_le)
  have nth: "initCentroids data k rnd ! i = pixelAt data (4 * rnd i)" if "i < k" for i
    using that by (simp add: initCentroids_def randomIdx_def mult.commute)
  have "initCentroids data' k rnd = initCentroids data k rnd"
    if same: "\<forall>j. j mod 4 \<noteq> 3 \<longrightarrow> data' ! j = data ! j" for data'
  proof -
    have "pixelAt data' (q * 4) = pixelAt data (q * 4)" for q
    proof -
      have "(q * 4) mod 4 \<noteq> 3" "(q * 4 + 1) mod 4 \<noteq> 3" "(q * 4 + 2) mod 4 \<noteq> 3"
        by presburger+
      then show ?thesis
        using same by (simp add: pixelAt_def)
    qed
    then show ?thesis
      by (simp add: initCentroids_def randomIdx_def)
  qed
  then have "\<forall>data'. length data' = length data \<and> (\<forall>j. j mod 4 \<noteq> 3 \<longrightarrow> data' ! j = data ! j) \<longrightarrow>
            initCentroids data' k rnd = initCentroids data k rnd"
    by blast
  moreover have "\<forall>i < k. 4 * rnd i + 3 < length data \<and>
            initCentroids data k rnd ! i = pixelAt data (4 * rnd i)"
    using rng nth by blast
  ultimately show ?thesis
    using initCentroids_length [of data k rnd] by blast
qed

theorem init_centroids_any_pixel_witness:
  "length exMixed = 4 * 2 \<and> (1::nat) < 2 \<and>
   initCentroids exMixed 1 (\<lambda>_. 1) ! 0 = pixelAt exMixed 4"
proof -
  have len: "length exMixed = 4 * 2"
    by (simp add: exMixed_def)
  have draws: "\<forall>i < (1::nat). (\<lambda>_. 1::nat) i < 2"
    by simp
  note pick = init_centroids_any_pixel [OF len draws, THEN conjunct2, THEN conjunct1, rule_format, of 0]
  have "initCentroids exMixed 1 (\<lambda>_. 1) ! 0 = pixelAt exMixed (4 * 1)"
    using pick by simp
  then show ?thesis
    using len by simp
qed

section \<open>The 4 by 1 example: two red pixels, two blue pixels\<close>

definition img4 :: buffer where
  "img4 = [255, 0, 0, 255, 255, 0, 0, 255, 0, 0, 255, 255, 0, 0, 255, 255]"

definition red :: RGB where
  "red = \<lparr>r = 255, g = 0, b = 0\<rparr>"

definition blue :: RGB where
  "blue = \<lparr>r = 0, g = 0, b = 255\<rparr>"

lemma upt2: "[0..<2] = [0, 1]"
  by (simp add: upt_rec)

lemma upt4: "[0..<4] = [0, 1, 2, 3]"
  by (simp add: upt_rec)

lemma img4_pixel: "q < 4 \<Longrightarrow> pixelAt img4 (4 * q) \<in> {red, blue}"
proof -
  assume "q < 4"
  then have "q \<in> set [0..<4]"
    by simp
  then have "q = 0 \<or> q = 1 \<or> q = 2 \<or> q = 3"
    unfolding upt4 by simp
  then show ?thesis
    by (auto simp: pixelAt_def img4_def red_def blue_def)
qed

lemma img4_init:
  assumes "\<forall>i < 2. rnd i < 4"
  shows "initCentroids img4 2 rnd \<in> {[red, red], [red, blue], [blue, red], [blue, blue]}"
proof -
  have "pixelAt img4 (randomIdx rnd i) \<in> {red, blue}" if "i < 2" for i
  proof -
    have "rnd i < 4"
      using assms that by simp
    then show ?thesis
      using img4_pixel [of "rnd i"] by (simp add: randomIdx_def mult.commute)
  qed
  from this [of 0] this [of 1] show ?thesis
    by (auto simp: initCentroids_def upt2)
qed

text \<open>\<^verbatim>\<open>Math.round\<close> of a quotient of integers, in integer arithmetic.\<close>

lemma round_quotient:
  assumes "0 < c"
  shows "round (real_of_int s / real c) = (2 * s + int c) div (2 * int c)"
proof -
  have "real_of_int s / real c + 1 / 2 = real_of_int (2 * s + int c) / real_of_int (2 * int c)"
    using assms by (simp add: field_simps)
  then have "round (real_of_int s / real c) = \<lfloor>real_of_int (2 * s + int c) / real_of_int (2 * int c)\<rfloor>"
    by (simp add: round_def)
  then show ?thesis
    by (simp only: floor_divide_of_int_eq)
qed

lemma round_255_2: "round (255 / 2 :: real) = 128"
  using round_quotient [of 2 255] by simp

lemmas pass_simps = kmeansPass_def pixelOffsets_def img4_def nearest_def nearestStep_def colorDistance_def
  upt2 upt4 pixelAt_def addPixel_def updateCentroid_def red_def blue_def round_255_2

lemma img4_pass_rr: "kmeansPass img4 [red, red] = Inr [\<lparr>r = 128, g = 0, b = 128\<rparr>, red]"
  by (simp add: pass_simps)

lemma img4_pass_bb: "kmeansPass img4 [blue, blue] = Inr [\<lparr>r = 128, g = 0, b = 128\<rparr>, blue]"
  by (simp add: pass_simps)

lemma img4_pass_mr: "kmeansPass img4 [\<lparr>r = 128, g = 0, b = 128\<rparr>, red] = Inr [blue, red]"
  by (simp add: pass_simps)

lemma img4_pass_mb: "kmeansPass img4 [\<lparr>r = 128, g = 0, b = 128\<rparr>, blue] = Inr [red, blue]"
  by (simp add: pass_simps)

lemma img4_pass_rb: "kmeansPass img4 [red, blue] = Inr [red, blue]"
  by (simp add: pass_simps)

lemma img4_pass_br: "kmeansPass img4 [blue, red] = Inr [blue, red]"
  by (simp add: pass_simps)

lemma iterations_unfold: "iterations = Suc (Suc (Suc (Suc (Suc 0))))"
  by (simp add: iterations_def)

lemma img4_loop:
  "kmeansLoop iterations img4 [red, red] = Inr [blue, red]"
  "kmeansLoop iterations img4 [blue, blue] = Inr [red, blue]"
  "kmeansLoop iterations img4 [red, blue] = Inr [red, blue]"
  "kmeansLoop iterations img4 [blue, red] = Inr [blue, red]"
  by (simp_all add: iterations_unfold img4_pass_rr img4_pass_bb img4_pass_mr img4_pass_mb img4_pass_rb img4_pass_br)

definition palRB :: "PaletteColor list" where
  "palRB = [\<lparr>r = 255, g = 0, b = 0, id' = 1, hex = ''#ff0000'', count = 0\<rparr>,
            \<lparr>r = 0, g = 0, b = 255, id' = 2, hex = ''#0000ff'', count = 0\<rparr>]"

definition palBR :: "PaletteColor list" where
  "palBR = [\<lparr>r = 0, g = 0, b = 255, id' = 1, hex = ''#0000ff'', count = 0\<rparr>,
            \<lparr>r = 255, g = 0, b = 0, id' = 2, hex = ''#ff0000'', count = 0\<rparr>]"

lemma img4_toPalette:
  "map (toPaletteColor [red, blue]) [0..<length [red, blue]] = palRB"
  "map (toPaletteColor [blue, red]) [0..<length [blue, red]] = palBR"
proof -
  have hexes: "rgbToHex 255 0 0 = ''#ff0000''" "rgbToHex 0 0 255 = ''#0000ff''"
    by (simp_all add: rgbToHex_def toString16.simps hexDigit_def)
  have "[toPaletteColor [red, blue] 0, toPaletteColor [red, blue] (Suc 0)] = palRB"
    "[toPaletteColor [blue, red] 0, toPaletteColor [blue, red] (Suc 0)] = palBR"
    by (simp_all add: toPaletteColor_def red_def blue_def palRB_def palBR_def hexes)
  then show "map (toPaletteColor [red, blue]) [0..<length [red, blue]] = palRB"
    "map (toPaletteColor [blue, red]) [0..<length [blue, red]] = palBR"
    by simp_all
qed

lemma img4_palette_of:
  assumes "kmeansLoop iterations img4 (initCentroids img4 2 rnd) = Inr cs"
  shows "getQuantizedPalette img4 2 rnd = Inr (map (toPaletteColor cs) [0..<length cs])"
  using assms by (simp add: getQuantizedPalette_def)

lemma img4_palette:
  assumes "\<forall>i < 2. rnd i < 4"
  shows "getQuantizedPalette img4 2 rnd = Inr palRB \<or> getQuantizedPalette img4 2 rnd = Inr palBR"
proof -
  consider "initCentroids img4 2 rnd = [red, red]" | "initCentroids img4 2 rnd = [red, blue]"
    | "initCentroids img4 2 rnd = [blue, red]" | "initCentroids img4 2 rnd = [blue, blue]"
    using img4_init [OF assms] by blast
  then show ?thesis
  proof cases
    case 1
    then have "kmeansLoop iterations img4 (initCentroids img4 2 rnd) = Inr [blue, red]"
      by (simp only: img4_loop)
    from img4_palette_of [OF this] show ?thesis
      by (simp only: img4_toPalette simp_thms)
  next
    case 2
    then have "kmeansLoop iterations img4 (initCentroids img4 2 rnd) = Inr [red, blue]"
      by (simp only: img4_loop)
    from img4_palette_of [OF this] show ?thesis
      by (simp only: img4_toPalette simp_thms)
  next
    case 3
    then have "kmeansLoop iterations img4 (initCentroids img4 2 rnd) = Inr [blue, red]"
      by (simp only: img4_loop)
    from img4_palette_of [OF this] show ?thesis
      by (simp only: img4_toPalette simp_thms)
  next
    case 4
    then have "kmeansLoop iterations img4 (initCentroids img4 2 rnd) = Inr [red, blue]"
      by (simp only: img4_loop)
    from img4_palette_of [OF this] show ?thesis
      by (simp only: img4_toPalette simp_thms)
  qed
qed

lemmas label_simps = labelPixels_def labelStep_def pixelOffsets_def img4_def nearest_def nearestStep_def
  colorDistance_def upt2 upt4 pixelAt_def

lemma replicate4: "replicate 4 x = [x, x, x, x]"
  by (simp add: numeral_eq_Suc)

lemma img4_labels:
  "labelPixels img4 4 (Suc 0) palRB = [0, 0, 1, 1]"
  "labelPixels img4 4 (Suc 0) palBR = [1, 1, 0, 0]"
  by (simp_all add: label_simps palRB_def palBR_def replicate4)

lemma scanOrder_4_1: "scanOrder 4 (Suc 0) = [(0, 0), (1, 0), (2, 0), (3, 0)]"
  by (simp add: scanOrder_def upt4)

definition visited4 :: "nat \<Rightarrow> bool" where
  "visited4 = (\<lambda>_. False)(0 := True, 1 := True, 2 := True, 3 := True)"

definition path01 :: string where
  "path01 = ''M0,0L1,0 M0,1L1,1 M0,0L0,1 M1,0L2,0 M1,1L2,1 M2,0L2,1 ''"

definition path23 :: string where
  "path23 = ''M2,0L3,0 M2,1L3,1 M2,0L2,1 M3,0L4,0 M3,1L4,1 M4,0L4,1 ''"

lemmas trace_simps = traceRegionBoundary_def boundaryEdges_def boundingBox_def boxStep_def pixelEdges_def
  edgeToPath_def numToString.simps decDigit_def upt_rec

lemma img4_paths:
  "traceRegionBoundary [0, Suc 0] 4 (Suc 0) sx sy = path01"
  "traceRegionBoundary [2, 3] 4 (Suc 0) sx sy = path23"
  by (simp_all add: trace_simps path01_def path23_def)

lemmas scan_simps = extractRegions_def scanPixel_def floodFill.simps visitNeighbor_def directions_def
  calculateLabelPoint_def

lemma img4_extract_1:
  "extractRegions [0, 0, 1, 1] 4 (Suc 0) (Suc 0) palRB =
     Inr (visited4,
          [([0, 1], \<lparr>path = path01, colorId = 1, labelPoint = (1, 1 / 2), area = 2\<rparr>),
           ([2, 3], \<lparr>path = path23, colorId = 2, labelPoint = (3, 1 / 2), area = 2\<rparr>)],
          [(palRB ! 0)\<lparr>count := 1\<rparr>, (palRB ! 1)\<lparr>count := 1\<rparr>])"
  "extractRegions [1, 1, 0, 0] 4 (Suc 0) (Suc 0) palBR =
     Inr (visited4,
          [([0, 1], \<lparr>path = path01, colorId = 2, labelPoint = (1, 1 / 2), area = 2\<rparr>),
           ([2, 3], \<lparr>path = path23, colorId = 1, labelPoint = (3, 1 / 2), area = 2\<rparr>)],
          [(palBR ! 0)\<lparr>count := 1\<rparr>, (palBR ! 1)\<lparr>count := 1\<rparr>])"
  by (simp_all add: scan_simps scanOrder_4_1 img4_paths palRB_def palBR_def visited4_def
      numeral_2_eq_2 [symmetric])

lemma img4_extract_10:
  "extractRegions [0, 0, 1, 1] 4 (Suc 0) minRegionArea palRB = Inr (visited4, [], palRB)"
  "extractRegions [1, 1, 0, 0] 4 (Suc 0) minRegionArea palBR = Inr (visited4, [], palBR)"
  by (simp_all add: scan_simps scanOrder_4_1 minRegionArea_def visited4_def numeral_2_eq_2 [symmetric])

lemma palette_counts:
  "filter (\<lambda>p. 0 < count p) palRB = []" "filter (\<lambda>p. 0 < count p) palBR = []"
  by (simp_all add: palRB_def palBR_def)

definition regions4 :: "nat \<Rightarrow> nat \<Rightarrow> Region list" where
  "regions4 c1 c2 =
     [\<lparr>path = path01, colorId = c1, labelPoint = (1, 1 / 2), area = 2\<rparr>,
      \<lparr>path = path23, colorId = c2, labelPoint = (3, 1 / 2), area = 2\<rparr>]"

definition art4RB :: "string \<Rightarrow> ProcessedArt" where
  "art4RB url = \<lparr>width = 4, height = 1,
     palette = [(palRB ! 0)\<lparr>count := 1\<rparr>, (palRB ! 1)\<lparr>count := 1\<rparr>],
     regions = regions4 1 2, originalUrl = url\<rparr>"

definition art4BR :: "string \<Rightarrow> ProcessedArt" where
  "art4BR url = \<lparr>width = 4, height = 1,
     palette = [(palBR ! 0)\<lparr>count := 1\<rparr>, (palBR ! 1)\<lparr>count := 1\<rparr>],
     regions = regions4 2 1, originalUrl = url\<rparr>"

lemma img4_run_1:
  assumes "\<forall>i < 2. rnd i < 4"
  shows "processImageWith 1 img4 4 1 url 2 rnd = Inr (art4RB url) \<or>
         processImageWith 1 img4 4 1 url 2 rnd = Inr (art4BR url)"
  using img4_palette [OF assms]
proof
  assume "getQuantizedPalette img4 2 rnd = Inr palRB"
  then have "processImageWith 1 img4 4 1 url 2 rnd = Inr (art4RB url)"
    by (simp add: processImageWith_def img4_labels img4_extract_1 art4RB_def regions4_def)
  then show ?thesis ..
next
  assume "getQuantizedPalette img4 2 rnd = Inr palBR"
  then have "processImageWith 1 img4 4 1 url 2 rnd = Inr (art4BR url)"
    by (simp add: processImageWith_def img4_labels img4_extract_1 art4BR_def regions4_def)
  then show ?thesis ..
qed

lemma img4_run_10:
  assumes "\<forall>i < 2. rnd i < 4"
  shows "processImage img4 4 1 url 2 rnd =
     Inr \<lparr>width = 4, height = 1, palette = [], regions = [], originalUrl = url\<rparr>"
  using img4_palette [OF assms]
proof
  assume "getQuantizedPalette img4 2 rnd = Inr palRB"
  then show ?thesis
    by (simp add: processImage_def processImageWith_def img4_labels img4_extract_10 palette_counts)
next
  assume "getQuantizedPalette img4 2 rnd = Inr palBR"
  then show ?thesis
    by (simp add: processImage_def processImageWith_def img4_labels img4_extract_10 palette_counts)
qed

definition draws02 :: "nat \<Rightarrow> nat" where
  "draws02 i = (if i = 0 then 0 else 2)"

lemma draws02_range: "\<forall>i < 2. draws02 i < 4"
  by (simp add: draws02_def)

lemma img4_run_draws02: "processImageWith 1 img4 4 1 url 2 draws02 = Inr (art4RB url)"
proof -
  have "initCentroids img4 2 draws02 = [red, blue]"
    by (simp add: initCentroids_def randomIdx_def img4_def draws02_def pixelAt_def upt2 red_def blue_def)
  then have "kmeansLoop iterations img4 (initCentroids img4 2 draws02) = Inr [red, blue]"
    by (simp only: img4_loop)
  then have "getQuantizedPalette img4 2 draws02 = Inr palRB"
    using img4_palette_of [of draws02 "[red, blue]"] by (simp only: img4_toPalette)
  then show ?thesis
    by (simp add: processImageWith_def img4_labels img4_extract_1 art4RB_def regions4_def)
qed

text \<open>
  C7 (end-to-end example). As stated the claim fails on the pipeline: \<^verbatim>\<open>minRegionArea\<close>
  is the constant 10, not an input, and no component of a 4 by 1 image reaches it, so the
  pipeline returns no region and an empty palette.
\<close>

theorem example_4x1_counterexample:
  "processImage img4 4 1 ''img'' 2 draws02 =
     Inr \<lparr>width = 4, height = 1, palette = [], regions = [], originalUrl = ''img''\<rparr>"
  using draws02_range by (rule img4_run_10)

text \<open>
  C7 as the code has it. For the 4 by 1 image and \<open>K = 2\<close>, whatever the draws: the
  pipeline, whose threshold is 10, returns no region and an empty palette; the same code
  with the threshold set to 1 returns a palette of two entries, red and blue in either
  order, numbered 1 and 2 and used once each, and two regions of area 2, pixels 0-1 and
  2-3, whose outlines both hold the edge from (2,0) to (2,1).
\<close>

theorem example_4x1:
  assumes "\<forall>i < 2. rnd i < 4"
  shows "processImage img4 4 1 url 2 rnd =
           Inr \<lparr>width = 4, height = 1, palette = [], regions = [], originalUrl = url\<rparr> \<and>
         (\<exists>art. processImageWith 1 img4 4 1 url 2 rnd = Inr art \<and>
            length (palette art) = 2 \<and> map id' (palette art) = [1, 2] \<and> map count (palette art) = [1, 1] \<and>
            (map (\<lambda>p. (r p, g p, b p)) (palette art) = [(255, 0, 0), (0, 0, 255)] \<and>
               map colorId (regions art) = [1, 2] \<or>
             map (\<lambda>p. (r p, g p, b p)) (palette art) = [(0, 0, 255), (255, 0, 0)] \<and>
               map colorId (regions art) = [2, 1]) \<and>
            length (regions art) = 2 \<and> map area (regions art) = [2, 2] \<and>
            map path (regions art) =
              [''M0,0L1,0 M0,1L1,1 M0,0L0,1 M1,0L2,0 M1,1L2,1 M2,0L2,1 '',
               ''M2,0L3,0 M2,1L3,1 M2,0L2,1 M3,0L4,0 M3,1L4,1 M4,0L4,1 ''])"
proof -
  have rb: "length (palette (art4RB url)) = 2 \<and> map id' (palette (art4RB url)) = [1, 2] \<and>
      map count (palette (art4RB url)) = [1, 1] \<and>
      map (\<lambda>p. (r p, g p, b p)) (palette (art4RB url)) = [(255, 0, 0), (0, 0, 255)] \<and>
      map colorId (regions (art4RB url)) = [1, 2] \<and>
      length (regions (art4RB url)) = 2 \<and> map area (regions (art4RB url)) = [2, 2] \<and>
      map path (regions (art4RB url)) =
              [''M0,0L1,0 M0,1L1,1 M0,0L0,1 M1,0L2,0 M1,1L2,1 M2,0L2,1 '',
               ''M2,0L3,0 M2,1L3,1 M2,0L2,1 M3,0L4,0 M3,1L4,1 M4,0L4,1 '']"
    by (simp add: art4RB_def regions4_def palRB_def path01_def path23_def)
  have br: "length (palette (art4BR url)) = 2 \<and> map id' (palette (art4BR url)) = [1, 2] \<and>
      map count (palette (art4BR url)) = [1, 1] \<and>
      map (\<lambda>p. (r p, g p, b p)) (palette (art4BR url)) = [(0, 0, 255), (255, 0, 0)] \<and>
      map colorId (regions (art4BR url)) = [2, 1] \<and>
      length (regions (art4BR url)) = 2 \<and> map area (regions (art4BR url)) = [2, 2] \<and>
      map path (regions (art4BR url)) =
              [''M0,0L1,0 M0,1L1,1 M0,0L0,1 M1,0L2,0 M1,1L2,1 M2,0L2,1 '',
               ''M2,0L3,0 M2,1L3,1 M2,0L2,1 M3,0L4,0 M3,1L4,1 M4,0L4,1 '']"
    by (simp add: art4BR_def regions4_def palBR_def path01_def path23_def)
  have "\<exists>art. processImageWith 1 img4 4 1 url 2 rnd = Inr art \<and>
            length (palette art) = 2 \<and> map id' (palette art) = [1, 2] \<and> map count (palette art) = [1, 1] \<and>
            (map (\<lambda>p. (r p, g p, b p)) (palette art) = [(255, 0, 0), (0, 0, 255)] \<and>
               map colorId (regions art) = [1, 2] \<or>
             map (\<lambda>p. (r p, g p, b p)) (palette art) = [(0, 0, 255), (255, 0, 0)] \<and>
               map colorId (regions art) = [2, 1]) \<and>
            length (regions art) = 2 \<and> map area (regions art) = [2, 2] \<and>
            map path (regions art) =
              [''M0,0L1,0 M0,1L1,1 M0,0L0,1 M1,0L2,0 M1,1L2,1 M2,0L2,1 '',
               ''M2,0L3,0 M2,1L3,1 M2,0L2,1 M3,0L4,0 M3,1L4,1 M4,0L4,1 '']"
    using img4_run_1 [OF assms, of url]
  proof
    assume "processImageWith 1 img4 4 1 url 2 rnd = Inr (art4RB url)"
    then show ?thesis
      using rb by (intro exI [of _ "art4RB url"]) (simp only: simp_thms)
  next
    assume "processImageWith 1 img4 4 1 url 2 rnd = Inr (art4BR url)"
    then show ?thesis
      using br by (intro exI [of _ "art4BR url"]) (simp only: simp_thms)
  qed
  then show ?thesis
    using img4_run_10 [OF assms, of url] by (simp only: simp_thms)
qed

theorem example_4x1_witness:
  "draws02 0 < 4 \<and> draws02 1 < 4 \<and>
   (\<exists>art. processImageWith 1 img4 4 1 ''img'' 2 draws02 = Inr art \<and>
      length (palette art) = 2 \<and> map area (regions art) = [2, 2])"
proof -
  have rng: "draws02 0 < 4 \<and> draws02 1 < 4"
    by (simp add: draws02_def)
  note ex = example_4x1 [OF draws02_range, of "''img''", THEN conjunct2]
  then obtain art where "processImageWith 1 img4 4 1 ''img'' 2 draws02 = Inr art"
    "length (palette art) = 2" "map area (regions art) = [2, 2]"
    by (elim exE conjE)
  then have "\<exists>art. processImageWith 1 img4 4 1 ''img'' 2 draws02 = Inr art \<and>
      length (palette art) = 2 \<and> map area (regions art) = [2, 2]"
    by (intro exI [of _ art] conjI)
  with rng show ?thesis
    by (simp only: simp_thms)
qed

text \<open>The usage count of a palette id in the output: the regions whose \<open>colorId\<close> it is.\<close>

definition usageCount :: "ProcessedArt \<Rightarrow> nat \<Rightarrow> nat" where
  "usageCount art i = length (filter (\<lambda>reg. colorId reg = i) (regions art))"

lemma processImageWith_parts:
  assumes "processImageWith minArea data w h imageUrl k rnd = Inr art"
  obtains pal0 visited regs pal' where
    "getQuantizedPalette data k rnd = Inr pal0"
    "extractRegions (labelPixels data w h pal0) w h minArea pal0 = Inr (visited, regs, pal')"
    "art = \<lparr>width = w, height = h, palette = filter (\<lambda>p. count p > 0) pal',
            regions = map snd regs, originalUrl = imageUrl\<rparr>"
  using assms by (auto simp: processImageWith_def Let_def split: sum.splits)

text \<open>
  C3 (palette filtering). In the assembled artwork the palette is the quantizer's palette,
  whose entry \<open>j\<close> has id \<open>j + 1\<close>, restricted to the entries used by at least one region,
  each with its usage count and its id unchanged; an entry no region uses is absent, and
  every region's \<open>colorId\<close> is the id of an entry that is present.
\<close>

theorem palette_filtering:
  assumes "processImageWith minArea data w h imageUrl k rnd = Inr art"
  shows "\<exists>pal0. getQuantizedPalette data k rnd = Inr pal0 \<and> length pal0 = k \<and>
           (\<forall>j < k. id' (pal0 ! j) = j + 1) \<and>
           palette art = map (\<lambda>j. (pal0 ! j)\<lparr>count := usageCount art (j + 1)\<rparr>)
                             (filter (\<lambda>j. 0 < usageCount art (j + 1)) [0..<k]) \<and>
           (\<forall>j < k. usageCount art (j + 1) = 0 \<longrightarrow> j + 1 \<notin> set (map id' (palette art))) \<and>
           (\<forall>reg \<in> set (regions art). colorId reg \<in> set (map id' (palette art)))"
proof -
  from processImageWith_parts [OF assms] obtain pal0 visited regs pal' where
    gq: "getQuantizedPalette data k rnd = Inr pal0"
    and ext: "extractRegions (labelPixels data w h pal0) w h minArea pal0 = Inr (visited, regs, pal')"
    and art: "art = \<lparr>width = w, height = h, palette = filter (\<lambda>p. count p > 0) pal',
            regions = map snd regs, originalUrl = imageUrl\<rparr>"
    by blast
  let ?L = "labelPixels data w h pal0"
  have len0: "length pal0 = k" and shape: "\<And>j. j < k \<Longrightarrow> id' (pal0 ! j) = j + 1 \<and> count (pal0 ! j) = 0"
    using getQuantizedPalette_shape [OF gq] by simp_all
  have pinv: "palInv ?L pal0 (visited, regs, pal')"
    using ext by (rule extractRegions_palInv)
  have len': "length pal' = k"
    using pinv len0 by (simp add: palInv_def)
  have ref: "0 \<le> ?L ! hd (fst pr) \<and> nat (?L ! hd (fst pr)) < k \<and>
      colorId (snd pr) = nat (?L ! hd (fst pr)) + 1" if "pr \<in> set regs" for pr
  proof -
    have "0 \<le> ?L ! hd (fst pr) \<and> nat (?L ! hd (fst pr)) < length pal0 \<and>
        colorId (snd pr) = id' (pal0 ! nat (?L ! hd (fst pr)))"
      using pinv that by (simp add: palInv_def)
    then show ?thesis
      using shape [of "nat (?L ! hd (fst pr))"] len0 by simp
  qed
  have use: "length (filter (\<lambda>pr. ?L ! hd (fst pr) = int j) regs) = usageCount art (j + 1)" for j
  proof -
    have "filter (\<lambda>pr. ?L ! hd (fst pr) = int j) regs = filter (\<lambda>pr. colorId (snd pr) = j + 1) regs"
      using ref by (intro filter_cong refl) auto
    then show ?thesis
      by (simp add: usageCount_def art filter_map comp_def)
  qed
  have entry: "pal' ! j = (pal0 ! j)\<lparr>count := usageCount art (j + 1)\<rparr>" if "j < k" for j
  proof -
    have "pal' ! j = (pal0 ! j)\<lparr>count := count (pal0 ! j) +
        length (filter (\<lambda>pr. ?L ! hd (fst pr) = int j) regs)\<rparr>"
      using pinv that len0 by (simp add: palInv_def)
    then show ?thesis
      using shape [OF that] use [of j] by simp
  qed
  have "pal' = map (\<lambda>j. pal' ! j) [0..<k]"
    using len' map_nth [of pal'] by simp
  also have "\<dots> = map (\<lambda>j. (pal0 ! j)\<lparr>count := usageCount art (j + 1)\<rparr>) [0..<k]"
    using entry by (intro map_cong refl) simp
  finally have pal': "pal' = map (\<lambda>j. (pal0 ! j)\<lparr>count := usageCount art (j + 1)\<rparr>) [0..<k]" .
  have "filter (\<lambda>p. count p > 0) pal' =
      map (\<lambda>j. (pal0 ! j)\<lparr>count := usageCount art (j + 1)\<rparr>) (filter (\<lambda>j. 0 < usageCount art (j + 1)) [0..<k])"
    by (subst pal') (simp add: filter_map comp_def)
  then have out: "palette art = map (\<lambda>j. (pal0 ! j)\<lparr>count := usageCount art (j + 1)\<rparr>)
                             (filter (\<lambda>j. 0 < usageCount art (j + 1)) [0..<k])"
    by (simp add: art)
  have ids: "set (map id' (palette art)) = {j + 1 | j. j < k \<and> 0 < usageCount art (j + 1)}"
  proof -
    have "map id' (palette art) = map (\<lambda>j. j + 1) (filter (\<lambda>j. 0 < usageCount art (j + 1)) [0..<k])"
      unfolding out using shape by (simp add: comp_def) 
    then show ?thesis
      by auto
  qed
  have absent: "\<forall>j < k. usageCount art (j + 1) = 0 \<longrightarrow> j + 1 \<notin> set (map id' (palette art))"
    unfolding ids by auto
  have present: "colorId reg \<in> set (map id' (palette art))" if mem: "reg \<in> set (regions art)" for reg
  proof -
    obtain pr where pr: "pr \<in> set regs" "reg = snd pr"
      using mem by (auto simp: art)
    let ?j = "nat (?L ! hd (fst pr))"
    have j: "?j < k" "colorId reg = ?j + 1"
      using ref [OF pr(1)] pr(2) by simp_all
    have "reg \<in> set (filter (\<lambda>reg. colorId reg = ?j + 1) (regions art))"
      using mem j(2) by simp
    then have "0 < usageCount art (?j + 1)"
      unfolding usageCount_def by (rule length_pos_if_in_set)
    then show ?thesis
      unfolding ids using j by blast
  qed
  show ?thesis
    using gq len0 shape out absent present by blast
qed

text \<open>
  The 4 by 1 example with three colours and the draws 0, 0, 2: centroids red, red,
  blue. The second centroid is never the nearest, so the output ids are 1 and 3.
\<close>

definition draws3 :: "nat \<Rightarrow> nat" where
  "draws3 i = (if i = 2 then 2 else 0)"

definition pal3 :: "PaletteColor list" where
  "pal3 = [\<lparr>r = 255, g = 0, b = 0, id' = 1, hex = ''#ff0000'', count = 0\<rparr>,
           \<lparr>r = 255, g = 0, b = 0, id' = 2, hex = ''#ff0000'', count = 0\<rparr>,
           \<lparr>r = 0, g = 0, b = 255, id' = 3, hex = ''#0000ff'', count = 0\<rparr>]"

definition art3 :: ProcessedArt where
  "art3 = \<lparr>width = 4, height = 1,
     palette = [(pal3 ! 0)\<lparr>count := 1\<rparr>, (pal3 ! 2)\<lparr>count := 1\<rparr>],
     regions = regions4 1 3, originalUrl = ''img''\<rparr>"

lemma img4_init3: "initCentroids img4 3 draws3 = [red, red, blue]"
  by (simp add: initCentroids_def randomIdx_def img4_def draws3_def pixelAt_def upt3 red_def blue_def)

lemma img4_pass3: "kmeansPass img4 [red, red, blue] = Inr [red, red, blue]"
  by (simp add: pass_simps upt3)

lemma img4_palette3: "getQuantizedPalette img4 3 draws3 = Inr pal3"
proof -
  have "kmeansLoop iterations img4 [red, red, blue] = Inr [red, red, blue]"
    by (simp add: iterations_unfold img4_pass3)
  moreover have "[toPaletteColor [red, red, blue] 0, toPaletteColor [red, red, blue] (Suc 0),
      toPaletteColor [red, red, blue] (Suc (Suc 0))] = pal3"
    by (simp add: toPaletteColor_def red_def blue_def pal3_def rgbToHex_def toString16.simps hexDigit_def)
  ultimately show ?thesis
    by (simp add: getQuantizedPalette_def img4_init3)
qed

lemma img4_labels3: "labelPixels img4 4 (Suc 0) pal3 = [0, 0, 2, 2]"
  by (simp add: label_simps upt3 pal3_def replicate4)

lemma img4_extract3:
  "extractRegions [0, 0, 2, 2] 4 (Suc 0) (Suc 0) pal3 =
     Inr (visited4,
          [([0, 1], \<lparr>path = path01, colorId = 1, labelPoint = (1, 1 / 2), area = 2\<rparr>),
           ([2, 3], \<lparr>path = path23, colorId = 3, labelPoint = (3, 1 / 2), area = 2\<rparr>)],
          [(pal3 ! 0)\<lparr>count := 1\<rparr>, pal3 ! 1, (pal3 ! 2)\<lparr>count := 1\<rparr>])"
  by (simp add: scan_simps scanOrder_4_1 img4_paths pal3_def visited4_def numeral_2_eq_2 [symmetric])

lemma img4_run3: "processImageWith 1 img4 4 1 ''img'' 3 draws3 = Inr art3"
proof -
  have "count (pal3 ! Suc 0) = 0"
    by (simp add: pal3_def)
  then show ?thesis
    by (simp add: processImageWith_def img4_palette3 img4_labels3 img4_extract3 art3_def regions4_def)
qed

theorem palette_filtering_witness:
  "processImageWith 1 img4 4 1 ''img'' 3 draws3 = Inr art3 \<and>
   usageCount art3 2 = 0 \<and> map id' (palette art3) = [1, 3] \<and> map colorId (regions art3) = [1, 3] \<and>
   palette art3 = map (\<lambda>j. (pal3 ! j)\<lparr>count := usageCount art3 (j + 1)\<rparr>)
                      (filter (\<lambda>j. 0 < usageCount art3 (j + 1)) [0..<3])"
proof -
  obtain pal0 where pal0: "getQuantizedPalette img4 3 draws3 = Inr pal0"
    and out: "palette art3 = map (\<lambda>j. (pal0 ! j)\<lparr>count := usageCount art3 (j + 1)\<rparr>)
                             (filter (\<lambda>j. 0 < usageCount art3 (j + 1)) [0..<3])"
    using palette_filtering [OF img4_run3] by blast
  have "pal0 = pal3"
    using pal0 by (simp add: img4_palette3)
  moreover have "usageCount art3 2 = 0" "map id' (palette art3) = [1, 3]" "map colorId (regions art3) = [1, 3]"
    by (simp_all add: usageCount_def art3_def regions4_def pal3_def)
  ultimately show ?thesis
    using img4_run3 out by simp
qed

section \<open>Ten red pixels and one blue pixel\<close>



















section \<open>The refinement pass against its description\<close>


















section \<open>What the output owes to the draws\<close>










section \<open>The boundary of a rectangle\<close>

lemma Min_insert_min:
  assumes "finite A"
  shows "Min (insert (min x a) A) = min x (Min (insert (a::nat) A))"
proof (cases "A = {}")
  case True
  then show ?thesis by simp
next
  case False
  then show ?thesis
    using assms by (simp add: min.assoc)
qed

lemma Max_insert_max:
  assumes "finite A"
  shows "Max (insert (max x a) A) = max x (Max (insert (a::nat) A))"
proof (cases "A = {}")
  case True
  then show ?thesis by simp
next
  case False
  then show ?thesis
    using assms by (simp add: max.assoc)
qed

lemma boxStep_min_max:
  "boxStep w p (m1, m2, m3, m4) = (min (p mod w) m1, max (p mod w) m2, min (p div w) m3, max (p div w) m4)"
  by (auto simp: boxStep_def Let_def min_def max_def)

lemma Min_insert_step:
  assumes "finite A"
  shows "Min (insert m (insert x A)) = min x (Min (insert (m::nat) A))"
proof -
  have "insert m (insert x A) = insert x (insert m A)"
    by (rule insert_commute)
  moreover have "Min (insert x (insert m A)) = min x (Min (insert m A))"
    using assms by (intro Min_insert) simp_all
  ultimately show ?thesis
    by simp
qed

lemma Max_insert_step:
  assumes "finite A"
  shows "Max (insert m (insert x A)) = max x (Max (insert (m::nat) A))"
proof -
  have "insert m (insert x A) = insert x (insert m A)"
    by (rule insert_commute)
  moreover have "Max (insert x (insert m A)) = max x (Max (insert m A))"
    using assms by (intro Max_insert) simp_all
  ultimately show ?thesis
    by simp
qed

lemma fold_boxStep:
  "fold (boxStep w) ps (m1, m2, m3, m4) =
     (Min (insert m1 ((\<lambda>p. p mod w) ` set ps)), Max (insert m2 ((\<lambda>p. p mod w) ` set ps)),
      Min (insert m3 ((\<lambda>p. p div w) ` set ps)), Max (insert m4 ((\<lambda>p. p div w) ` set ps)))"
proof (induction ps arbitrary: m1 m2 m3 m4)
  case Nil
  show ?case by simp
next
  case (Cons p ps)
  have fin: "finite ((\<lambda>p. p mod w) ` set ps)" "finite ((\<lambda>p. p div w) ` set ps)"
    by simp_all
  have "fold (boxStep w) (p # ps) (m1, m2, m3, m4) =
      fold (boxStep w) ps (min (p mod w) m1, max (p mod w) m2, min (p div w) m3, max (p div w) m4)"
    by (simp add: boxStep_min_max)
  also have "\<dots> =
     (Min (insert (min (p mod w) m1) ((\<lambda>p. p mod w) ` set ps)),
      Max (insert (max (p mod w) m2) ((\<lambda>p. p mod w) ` set ps)),
      Min (insert (min (p div w) m3) ((\<lambda>p. p div w) ` set ps)),
      Max (insert (max (p div w) m4) ((\<lambda>p. p div w) ` set ps)))"
    by (rule Cons.IH)
  also have "\<dots> =
     (min (p mod w) (Min (insert m1 ((\<lambda>p. p mod w) ` set ps))),
      max (p mod w) (Max (insert m2 ((\<lambda>p. p mod w) ` set ps))),
      min (p div w) (Min (insert m3 ((\<lambda>p. p div w) ` set ps))),
      max (p div w) (Max (insert m4 ((\<lambda>p. p div w) ` set ps))))"
    by (simp only: Min_insert_min [OF fin(1)] Min_insert_min [OF fin(2)]
        Max_insert_max [OF fin(1)] Max_insert_max [OF fin(2)])
  also have "\<dots> =
     (Min (insert m1 ((\<lambda>p. p mod w) ` set (p # ps))), Max (insert m2 ((\<lambda>p. p mod w) ` set (p # ps))),
      Min (insert m3 ((\<lambda>p. p div w) ` set (p # ps))), Max (insert m4 ((\<lambda>p. p div w) ` set (p # ps))))"
    by (simp only: list.set image_insert Min_insert_step [OF fin(1)] Min_insert_step [OF fin(2)]
        Max_insert_step [OF fin(1)] Max_insert_step [OF fin(2)])
  finally show ?case .
qed

text \<open>The pixel indices of the rectangle of \<open>rw\<close> by \<open>rh\<close> pixels whose top left pixel is \<open>(x0, y0)\<close>.\<close>

definition rectangle :: "nat \<Rightarrow> nat \<Rightarrow> nat \<Rightarrow> nat \<Rightarrow> nat \<Rightarrow> nat set" where
  "rectangle w x0 y0 rw rh = {y * w + x | x y. x0 \<le> x \<and> x < x0 + rw \<and> y0 \<le> y \<and> y < y0 + rh}"

lemma rectangleI:
  "x0 \<le> x \<Longrightarrow> x < x0 + rw \<Longrightarrow> y0 \<le> y \<Longrightarrow> y < y0 + rh \<Longrightarrow> y * w + x \<in> rectangle w x0 y0 rw rh"
  unfolding rectangle_def by blast

lemma rectangle_mem:
  assumes "x0 + rw \<le> w" "x < w"
  shows "y * w + x \<in> rectangle w x0 y0 rw rh \<longleftrightarrow> x0 \<le> x \<and> x < x0 + rw \<and> y0 \<le> y \<and> y < y0 + rh"
proof
  assume "y * w + x \<in> rectangle w x0 y0 rw rh"
  then obtain x' y' where eq: "y * w + x = y' * w + x'"
    and in_rect: "x0 \<le> x'" "x' < x0 + rw" "y0 \<le> y'" "y' < y0 + rh"
    by (auto simp: rectangle_def)
  have "x' < w"
    using in_rect(2) assms(1) by simp
  then have "(y' * w + x') mod w = x'" "(y' * w + x') div w = y'"
    by simp_all
  moreover have "(y * w + x) mod w = x" "(y * w + x) div w = y"
    using assms(2) by simp_all
  ultimately have "x = x'" "y = y'"
    using eq by simp_all
  then show "x0 \<le> x \<and> x < x0 + rw \<and> y0 \<le> y \<and> y < y0 + rh"
    using in_rect by simp
next
  assume "x0 \<le> x \<and> x < x0 + rw \<and> y0 \<le> y \<and> y < y0 + rh"
  then show "y * w + x \<in> rectangle w x0 y0 rw rh"
    by (intro rectangleI) simp_all
qed

lemma rectangle_coords:
  assumes "0 < rw" "0 < rh" "x0 + rw \<le> w"
  shows "(\<lambda>p. p mod w) ` rectangle w x0 y0 rw rh = {x0..<x0 + rw}"
    and "(\<lambda>p. p div w) ` rectangle w x0 y0 rw rh = {y0..<y0 + rh}"
proof -
  have md: "(y * w + x) mod w = x" "(y * w + x) div w = y" if "x < x0 + rw" for x y
    using that assms(3) by simp_all
  show "(\<lambda>p. p mod w) ` rectangle w x0 y0 rw rh = {x0..<x0 + rw}"
  proof (intro set_eqI iffI)
    fix x
    assume "x \<in> (\<lambda>p. p mod w) ` rectangle w x0 y0 rw rh"
    then show "x \<in> {x0..<x0 + rw}"
      using md by (auto simp: rectangle_def)
  next
    fix x
    assume x: "x \<in> {x0..<x0 + rw}"
    then have "y0 * w + x \<in> rectangle w x0 y0 rw rh"
      using assms(2) by (intro rectangleI) simp_all
    moreover have "(y0 * w + x) mod w = x"
      using md x by simp
    ultimately show "x \<in> (\<lambda>p. p mod w) ` rectangle w x0 y0 rw rh"
      by (metis imageI)
  qed
  show "(\<lambda>p. p div w) ` rectangle w x0 y0 rw rh = {y0..<y0 + rh}"
  proof (intro set_eqI iffI)
    fix y
    assume "y \<in> (\<lambda>p. p div w) ` rectangle w x0 y0 rw rh"
    then show "y \<in> {y0..<y0 + rh}"
      using md by (auto simp: rectangle_def)
  next
    fix y
    assume y: "y \<in> {y0..<y0 + rh}"
    then have "y * w + x0 \<in> rectangle w x0 y0 rw rh"
      using assms(1) by (intro rectangleI) simp_all
    moreover have "(y * w + x0) div w = y"
      using md [of x0 y] assms(1) by simp
    ultimately show "y \<in> (\<lambda>p. p div w) ` rectangle w x0 y0 rw rh"
      by (metis imageI)
  qed
qed

lemma rectangle_box:
  assumes "0 < rw" "0 < rh" "x0 + rw \<le> w" "y0 + rh \<le> h" "set pixels = rectangle w x0 y0 rw rh"
  shows "boundingBox pixels w h = (x0, x0 + rw - 1, y0, y0 + rh - 1)"
proof -
  have "Min (insert w {x0..<x0 + rw}) = x0"
    using assms(1,3) by (intro Min_eqI) auto
  moreover have "Max (insert 0 {x0..<x0 + rw}) = x0 + rw - 1"
    using assms(1) by (intro Max_eqI) auto
  moreover have "Min (insert h {y0..<y0 + rh}) = y0"
    using assms(2,4) by (intro Min_eqI) auto
  moreover have "Max (insert 0 {y0..<y0 + rh}) = y0 + rh - 1"
    using assms(2) by (intro Max_eqI) auto
  ultimately show ?thesis
    by (simp add: boundingBox_def fold_boxStep assms(5) rectangle_coords [OF assms(1-3)])
qed

lemma pixelEdges_rectangle_eq:
  assumes "x0 + rw \<le> w" "y0 + rh \<le> h"
    and x: "x0 \<le> x" "x < x0 + rw" and y: "y0 \<le> y" "y < y0 + rh"
  shows "pixelEdges (rectangle w x0 y0 rw rh) w h x y =
     (if y = y0 then [(x, y, x + 1, y)] else []) @
     (if y = y0 + rh - 1 then [(x, y + 1, x + 1, y + 1)] else []) @
     (if x = x0 then [(x, y, x, y + 1)] else []) @
     (if x = x0 + rw - 1 then [(x + 1, y, x + 1, y + 1)] else [])"
proof -
  let ?S = "rectangle w x0 y0 rw rh"
  have xw: "x < w" and yh: "y < h"
    using assms by simp_all
  have top: "(y = 0 \<or> (y - 1) * w + x \<notin> ?S) \<longleftrightarrow> y = y0"
  proof (cases "y = 0")
    case True
    then show ?thesis using y by simp
  next
    case False
    then show ?thesis
      using rectangle_mem [OF assms(1) xw, of "y - 1" y0 rh] x y by auto
  qed
  have bottom: "(int y = int h - 1 \<or> (y + 1) * w + x \<notin> ?S) \<longleftrightarrow> y = y0 + rh - 1"
  proof (cases "int y = int h - 1")
    case True
    then show ?thesis using y assms(2) by auto
  next
    case False
    then show ?thesis
      using rectangle_mem [OF assms(1) xw, of "y + 1" y0 rh] x y by auto
  qed
  have left: "(x = 0 \<or> y * w + x - 1 \<notin> ?S) \<longleftrightarrow> x = x0"
  proof (cases "x = 0")
    case True
    then show ?thesis using x by simp
  next
    case False
    then have "y * w + x - 1 = y * w + (x - 1)" "x - 1 < w"
      using xw by simp_all
    then show ?thesis
      using rectangle_mem [OF assms(1), of "x - 1" y y0 rh] x y False by auto
  qed
  have right: "(int x = int w - 1 \<or> y * w + x + 1 \<notin> ?S) \<longleftrightarrow> x = x0 + rw - 1"
  proof (cases "int x = int w - 1")
    case True
    then show ?thesis using x assms(1) by auto
  next
    case False
    then have "y * w + x + 1 = y * w + (x + 1)" "x + 1 < w"
      using xw by simp_all
    then show ?thesis
      using rectangle_mem [OF assms(1), of "x + 1" y y0 rh] x y by auto
  qed
  show ?thesis
    unfolding pixelEdges_def by (simp only: top bottom left right)
qed

lemma pixelEdges_rectangle:
  assumes "x0 + rw \<le> w" "y0 + rh \<le> h"
    and x: "x0 \<le> x" "x < x0 + rw" and y: "y0 \<le> y" "y < y0 + rh"
  shows "length (pixelEdges (rectangle w x0 y0 rw rh) w h x y) =
     ((if y = y0 then 1 else 0) + (if y = y0 + rh - 1 then 1 else 0)) +
     ((if x = x0 then 1 else 0) + (if x = x0 + rw - 1 then 1 else 0))"
  by (simp only: pixelEdges_rectangle_eq [OF assms] length_append) simp

lemma sum_list_mark:
  assumes "m \<le> c" "c < m + n"
  shows "sum_list (map (\<lambda>x. if x = c then 1 else 0) [m..<m + n]) = (1::nat)"
proof -
  have "sum_list (map (\<lambda>x. if x = c then 1 else 0) [m..<m + n]) =
      (\<Sum>x \<in> set [m..<m + n]. if x = c then 1 else (0::nat))"
    by (rule interv_sum_list_conv_sum_set_nat)
  also have "\<dots> = 1"
    using assms by (simp add: sum.delta)
  finally show ?thesis .
qed

lemma sum_list_ends:
  assumes "0 < n"
  shows "sum_list (map (\<lambda>x. (if x = m then 1 else 0) + (if x = m + n - 1 then 1 else 0)) [m..<m + n]) = (2::nat)"
proof -
  have "sum_list (map (\<lambda>x. if x = m then 1 else 0) [m..<m + n]) = (1::nat)"
    using assms by (intro sum_list_mark) simp_all
  moreover have "sum_list (map (\<lambda>x. if x = m + n - 1 then 1 else 0) [m..<m + n]) = (1::nat)"
    using assms by (intro sum_list_mark) simp_all
  ultimately show ?thesis
    by (simp add: sum_list_addf)
qed

lemma boundaryEdges_rectangle:
  assumes "0 < rw" "0 < rh" "x0 + rw \<le> w" "y0 + rh \<le> h" "set pixels = rectangle w x0 y0 rw rh"
  shows "length (boundaryEdges pixels w h) = 2 * (rw + rh)"
proof -
  let ?S = "rectangle w x0 y0 rw rh"
  let ?T = "\<lambda>y. (if y = y0 then 1 else 0) + (if y = y0 + rh - 1 then 1 else (0::nat))"
  let ?L = "\<lambda>x. (if x = x0 then 1 else 0) + (if x = x0 + rw - 1 then 1 else (0::nat))"
  have xs: "[x0..<x0 + rw - 1 + 1] = [x0..<x0 + rw]" and ys: "[y0..<y0 + rh - 1 + 1] = [y0..<y0 + rh]"
    using assms(1,2) by simp_all
  have cell: "length (if y * w + x \<in> ?S then pixelEdges ?S w h x y else []) = ?T y + ?L x"
    if "x \<in> set [x0..<x0 + rw]" "y \<in> set [y0..<y0 + rh]" for x y
  proof -
    have "y * w + x \<in> ?S"
      using that by (intro rectangleI) simp_all
    then show ?thesis
      using pixelEdges_rectangle [OF assms(3,4), of x y] that by simp
  qed
  have row: "length (concat (map (\<lambda>x. if y * w + x \<in> ?S then pixelEdges ?S w h x y else []) [x0..<x0 + rw])) =
      rw * ?T y + 2" if "y \<in> set [y0..<y0 + rh]" for y
  proof -
    have "length (concat (map (\<lambda>x. if y * w + x \<in> ?S then pixelEdges ?S w h x y else []) [x0..<x0 + rw])) =
        sum_list (map (\<lambda>x. length (if y * w + x \<in> ?S then pixelEdges ?S w h x y else [])) [x0..<x0 + rw])"
      by (simp add: length_concat comp_def)
    also have "\<dots> = sum_list (map (\<lambda>x. ?T y + ?L x) [x0..<x0 + rw])"
      using cell that by (intro arg_cong [of _ _ sum_list] map_cong refl) blast
    also have "\<dots> = sum_list (map (\<lambda>x. ?T y) [x0..<x0 + rw]) + sum_list (map ?L [x0..<x0 + rw])"
      by (rule sum_list_addf)
    also have "\<dots> = rw * ?T y + 2"
      using sum_list_ends [OF assms(1), of x0] by (simp add: sum_list_triv)
    finally show ?thesis .
  qed
  have "boundaryEdges pixels w h =
      concat (map (\<lambda>y. concat (map (\<lambda>x.
        if y * w + x \<in> ?S then pixelEdges ?S w h x y else []) [x0..<x0 + rw - 1 + 1])) [y0..<y0 + rh - 1 + 1])"
    by (simp only: boundaryEdges_def Let_def rectangle_box [OF assms] assms(5) prod.case)
  then have "boundaryEdges pixels w h =
      concat (map (\<lambda>y. concat (map (\<lambda>x.
        if y * w + x \<in> ?S then pixelEdges ?S w h x y else []) [x0..<x0 + rw])) [y0..<y0 + rh])"
    by (simp only: xs ys)
  then have "length (boundaryEdges pixels w h) =
      sum_list (map (\<lambda>y. length (concat (map (\<lambda>x.
        if y * w + x \<in> ?S then pixelEdges ?S w h x y else []) [x0..<x0 + rw]))) [y0..<y0 + rh])"
    by (simp only: length_concat map_map comp_def)
  also have "\<dots> = sum_list (map (\<lambda>y. rw * ?T y + 2) [y0..<y0 + rh])"
    using row by (intro arg_cong [of _ _ sum_list] map_cong refl) blast
  also have "\<dots> = sum_list (map (\<lambda>y. rw * ?T y) [y0..<y0 + rh]) + sum_list (map (\<lambda>y. 2) [y0..<y0 + rh])"
    by (rule sum_list_addf)
  also have "\<dots> = rw * sum_list (map ?T [y0..<y0 + rh]) + 2 * rh"
    by (simp add: sum_list_const_mult sum_list_triv)
  also have "\<dots> = 2 * (rw + rh)"
    using sum_list_ends [OF assms(2), of y0] by simp
  finally show ?thesis .
qed

lemma distinct_concat_map:
  assumes "distinct xs"
    and "\<And>x. x \<in> set xs \<Longrightarrow> distinct (f x)"
    and "\<And>x y. x \<in> set xs \<Longrightarrow> y \<in> set xs \<Longrightarrow> x \<noteq> y \<Longrightarrow> set (f x) \<inter> set (f y) = {}"
  shows "distinct (concat (map f xs))"
  using assms
proof (induction xs)
  case Nil
  then show ?case by simp
next
  case (Cons a xs)
  have "set (f a) \<inter> set (f y) = {}" if "y \<in> set xs" for y
    using Cons.prems(3) [of a y] Cons.prems(1) that by auto
  moreover have "distinct (concat (map f xs))"
    using Cons by simp
  ultimately show ?case
    using Cons.prems(2) [of a] by auto
qed

text \<open>The edges one pixel of the rectangle emits, as a set: each comes with its side.\<close>

lemma pixelEdges_rectangle_mem:
  assumes "x0 + rw \<le> w" "y0 + rh \<le> h"
    and x: "x0 \<le> x" "x < x0 + rw" and y: "y0 \<le> y" "y < y0 + rh"
    and e: "e \<in> set (pixelEdges (rectangle w x0 y0 rw rh) w h x y)"
  shows "e = (x, y, x + 1, y) \<and> y = y0 \<or> e = (x, y + 1, x + 1, y + 1) \<and> y = y0 + rh - 1 \<or>
         e = (x, y, x, y + 1) \<and> x = x0 \<or> e = (x + 1, y, x + 1, y + 1) \<and> x = x0 + rw - 1"
  using e unfolding pixelEdges_rectangle_eq [OF assms(1-6)]
  by (auto split: if_splits)

lemma pixelEdges_rectangle_distinct:
  assumes "x0 + rw \<le> w" "y0 + rh \<le> h"
    and x: "x0 \<le> x" "x < x0 + rw" and y: "y0 \<le> y" "y < y0 + rh"
  shows "distinct (pixelEdges (rectangle w x0 y0 rw rh) w h x y)"
  unfolding pixelEdges_rectangle_eq [OF assms] by simp

lemma pixelEdges_rectangle_disjoint:
  assumes "x0 + rw \<le> w" "y0 + rh \<le> h"
    and x: "x0 \<le> x" "x < x0 + rw" and y: "y0 \<le> y" "y < y0 + rh"
    and x': "x0 \<le> x'" "x' < x0 + rw" and y': "y0 \<le> y'" "y' < y0 + rh"
    and ne: "(x, y) \<noteq> (x', y')"
  shows "set (pixelEdges (rectangle w x0 y0 rw rh) w h x y) \<inter>
         set (pixelEdges (rectangle w x0 y0 rw rh) w h x' y') = {}"
proof -
  have False if e: "e \<in> set (pixelEdges (rectangle w x0 y0 rw rh) w h x y)"
      and e': "e \<in> set (pixelEdges (rectangle w x0 y0 rw rh) w h x' y')" for e
    using pixelEdges_rectangle_mem [OF assms(1,2) x y e]
      pixelEdges_rectangle_mem [OF assms(1,2) x' y' e'] ne x y x' y'
    by auto
  then show ?thesis by blast
qed

lemma boundaryEdges_rectangle_distinct:
  assumes "0 < rw" "0 < rh" "x0 + rw \<le> w" "y0 + rh \<le> h" "set pixels = rectangle w x0 y0 rw rh"
  shows "distinct (boundaryEdges pixels w h)"
proof -
  let ?S = "rectangle w x0 y0 rw rh"
  let ?cell = "\<lambda>y x. if y * w + x \<in> ?S then pixelEdges ?S w h x y else []"
  let ?row = "\<lambda>y. concat (map (?cell y) [x0..<x0 + rw])"
  have xs: "[x0..<x0 + rw - 1 + 1] = [x0..<x0 + rw]" and ys: "[y0..<y0 + rh - 1 + 1] = [y0..<y0 + rh]"
    using assms(1,2) by simp_all
  have cell: "?cell y x = pixelEdges ?S w h x y"
    if "x \<in> set [x0..<x0 + rw]" "y \<in> set [y0..<y0 + rh]" for x y
  proof -
    have "y * w + x \<in> ?S"
      using that by (intro rectangleI) simp_all
    then show ?thesis by simp
  qed
  have cell_distinct: "distinct (?cell y x)"
    if "x \<in> set [x0..<x0 + rw]" "y \<in> set [y0..<y0 + rh]" for x y
    using pixelEdges_rectangle_distinct [OF assms(3,4), of x y] that
    by (simp only: cell [OF that]) simp
  have cell_disjoint: "set (?cell y x) \<inter> set (?cell y' x') = {}"
    if "x \<in> set [x0..<x0 + rw]" "y \<in> set [y0..<y0 + rh]"
      "x' \<in> set [x0..<x0 + rw]" "y' \<in> set [y0..<y0 + rh]" "(x, y) \<noteq> (x', y')" for x y x' y'
    using pixelEdges_rectangle_disjoint [OF assms(3,4), of x y x' y'] that
    by (simp only: cell [OF that(1,2)] cell [OF that(3,4)]) simp
  have row_set: "set (?row y) = (\<Union>x \<in> set [x0..<x0 + rw]. set (?cell y x))" for y
    by (simp only: set_concat set_map) blast
  have row_distinct: "distinct (?row y)" if "y \<in> set [y0..<y0 + rh]" for y
  proof (rule distinct_concat_map)
    show "distinct [x0..<x0 + rw]" by simp
    show "distinct (?cell y x)" if "x \<in> set [x0..<x0 + rw]" for x
      using cell_distinct [OF that \<open>y \<in> set [y0..<y0 + rh]\<close>] .
    show "set (?cell y x) \<inter> set (?cell y x') = {}"
      if "x \<in> set [x0..<x0 + rw]" "x' \<in> set [x0..<x0 + rw]" "x \<noteq> x'" for x x'
      using cell_disjoint [OF that(1) \<open>y \<in> set [y0..<y0 + rh]\<close> that(2) \<open>y \<in> set [y0..<y0 + rh]\<close>] that(3)
      by simp
  qed
  have row_disjoint: "set (?row y) \<inter> set (?row y') = {}"
    if yy: "y \<in> set [y0..<y0 + rh]" "y' \<in> set [y0..<y0 + rh]" "y \<noteq> y'" for y y'
  proof -
    have "set (?cell y x) \<inter> set (?cell y' x') = {}"
      if "x \<in> set [x0..<x0 + rw]" "x' \<in> set [x0..<x0 + rw]" for x x'
      using cell_disjoint [OF that(1) yy(1) that(2) yy(2)] yy(3) by simp
    then show ?thesis
      unfolding row_set by blast
  qed
  have "boundaryEdges pixels w h = concat (map ?row [y0..<y0 + rh - 1 + 1])"
    unfolding xs [symmetric]
    by (simp only: boundaryEdges_def Let_def rectangle_box [OF assms] assms(5) prod.case)
  then have eq: "boundaryEdges pixels w h = concat (map ?row [y0..<y0 + rh])"
    by (simp only: ys)
  have "distinct (concat (map ?row [y0..<y0 + rh]))"
  proof (rule distinct_concat_map)
    show "distinct [y0..<y0 + rh]" by simp
    show "distinct (?row y)" if "y \<in> set [y0..<y0 + rh]" for y
      using row_distinct [OF that] .
    show "set (?row y) \<inter> set (?row y') = {}"
      if "y \<in> set [y0..<y0 + rh]" "y' \<in> set [y0..<y0 + rh]" "y \<noteq> y'" for y y'
      using row_disjoint [OF that] .
  qed
  then show ?thesis
    by (simp only: eq)
qed

lemma numToString_digits: "set (numToString n) \<subseteq> set ''0123456789''"
proof (induction n rule: numToString.induct)
  case (1 n)
  have digit: "decDigit d \<in> set ''0123456789''" if "d < 10" for d
    unfolding decDigit_def using that by (intro nth_mem) simp
  show ?case
  proof (cases "n < 10")
    case True
    then show ?thesis
      using digit [of n] by (subst numToString.simps) simp
  next
    case False
    then show ?thesis
      using "1.IH" digit [of "n mod 10"] by (subst numToString.simps) simp
  qed
qed

lemma numToString_no_M: "count_list (numToString n) CHR ''M'' = 0"
proof -
  have "CHR ''M'' \<notin> set ''0123456789''"
    by simp
  then have "CHR ''M'' \<notin> set (numToString n)"
    using numToString_digits [of n] by blast
  then show ?thesis
    by (simp add: count_list_0_iff)
qed

lemma edgeToPath_one_M: "count_list (edgeToPath e) CHR ''M'' = 1"
  by (cases e) (simp add: edgeToPath_def numToString_no_M)

text \<open>The path holds one \<^verbatim>\<open>M\<close> command for each edge.\<close>

lemma path_edges: "count_list (concat (map edgeToPath es)) CHR ''M'' = length es"
  by (induction es) (simp_all add: edgeToPath_one_M)

text \<open>
  C5 (contour of a rectangle). For a region whose pixels are exactly a rectangle of \<open>rw\<close>
  by \<open>rh\<close> pixels inside the image, touching the image border or not, the boundary builder
  emits \<open>2 * (rw + rh)\<close> edges, no edge twice, one \<^verbatim>\<open>M\<close> command each in the returned
  path. For the one pixel of a 1 by 1 image they are the four sides of the unit square:
  top, bottom, left, right.
\<close>

theorem rectangle_boundary:
  assumes "0 < rw" "0 < rh" "x0 + rw \<le> w" "y0 + rh \<le> h"
    and "set pixels = rectangle w x0 y0 rw rh"
  shows "length (boundaryEdges pixels w h) = 2 * (rw + rh) \<and>
         distinct (boundaryEdges pixels w h) \<and>
         count_list (traceRegionBoundary pixels w h startX startY) CHR ''M'' = 2 * (rw + rh) \<and>
         boundaryEdges [0] 1 1 = [(0, 0, 1, 0), (0, 1, 1, 1), (0, 0, 0, 1), (1, 0, 1, 1)] \<and>
         traceRegionBoundary [0] 1 1 0 0 = ''M0,0L1,0 M0,1L1,1 M0,0L0,1 M1,0L1,1 ''"
proof -
  have n: "length (boundaryEdges pixels w h) = 2 * (rw + rh)"
    using assms by (rule boundaryEdges_rectangle)
  then have "count_list (traceRegionBoundary pixels w h startX startY) CHR ''M'' = 2 * (rw + rh)"
    by (simp add: traceRegionBoundary_def path_edges)
  moreover have "distinct (boundaryEdges pixels w h)"
    using assms by (rule boundaryEdges_rectangle_distinct)
  moreover have unit: "boundaryEdges [0] 1 1 = [(0, 0, 1, 0), (0, 1, 1, 1), (0, 0, 0, 1), (1, 0, 1, 1)]"
    by (simp add: boundaryEdges_def boundingBox_def boxStep_def pixelEdges_def)
  moreover have "traceRegionBoundary [0] 1 1 0 0 = ''M0,0L1,0 M0,1L1,1 M0,0L0,1 M1,0L1,1 ''"
    unfolding traceRegionBoundary_def unit
    by (simp add: edgeToPath_def numToString.simps decDigit_def)
  ultimately show ?thesis
    using n by simp
qed

theorem rectangle_boundary_witness:
  "(0::nat) < 2 \<and> (0::nat) < 1 \<and> (1::nat) + 2 \<le> 4 \<and> (1::nat) + 1 \<le> 3 \<and>
   set [5, 6] = rectangle 4 1 1 2 1 \<and>
   length (boundaryEdges [5, 6] 4 3) = 6 \<and>
   boundaryEdges [5, 6] 4 3 = [(1, 1, 2, 1), (1, 2, 2, 2), (1, 1, 1, 2), (2, 1, 3, 1), (2, 2, 3, 2), (3, 1, 3, 2)]"
proof -
  have rect: "set [5, 6] = rectangle 4 1 1 2 1"
  proof (intro set_eqI iffI)
    fix p :: nat
    assume "p \<in> set [5, 6]"
    then have p: "p = 1 * 4 + 1 \<or> p = 1 * 4 + 2"
      by auto
    have "1 * 4 + 1 \<in> rectangle 4 1 1 2 1" "1 * 4 + 2 \<in> rectangle 4 1 1 2 1"
      by (rule rectangleI; simp)+
    then show "p \<in> rectangle 4 1 1 2 1"
      using p by blast
  next
    fix p :: nat
    assume "p \<in> rectangle 4 1 1 2 1"
    then obtain x y where "p = y * 4 + x" "1 \<le> x" "x < 1 + 2" "1 \<le> y" "y < 1 + 1"
      unfolding rectangle_def by blast
    then have "y = 1" "x = 1 \<or> x = 2" "p = y * 4 + x"
      by auto
    then show "p \<in> set [5, 6]"
      by auto
  qed
  have h: "(0::nat) < 2" "(0::nat) < 1" "(1::nat) + 2 \<le> 4" "(1::nat) + 1 \<le> 3"
    by simp_all
  have "length (boundaryEdges [5, 6] 4 3) = 2 * (2 + 1)"
    using rectangle_boundary [OF h rect] by blast
  moreover have "boundaryEdges [5, 6] 4 3 =
      [(1, 1, 2, 1), (1, 2, 2, 2), (1, 1, 1, 2), (2, 1, 3, 1), (2, 2, 3, 2), (3, 1, 3, 2)]"
    by (simp add: boundaryEdges_def boundingBox_def boxStep_def pixelEdges_def upt_rec)
  ultimately show ?thesis
    using rect by simp
qed

end
